theory Spec2Isabelle
  imports Main "HOL-Library.AList"
begin

section \<open>Data model of \<^verbatim>\<open>mcutils_reborn/__init__.py\<close>\<close>

text \<open>
  Python objects are shared and mutated in place, so the model keeps them in an explicit
  store: a heap is the list of all objects ever created, an object's identity is its index.
  A dictionary is an association list kept with \<^const>\<open>AList.update\<close>, which replaces the
  value of a key that is present in place and appends a new key at the end, as a Python
  \<^verbatim>\<open>dict\<close> does.
\<close>

type_synonym addr = nat

text \<open>
  Modelled from the spec: the modules \<^verbatim>\<open>commands\<close>, \<open>expressions\<close>, \<open>conditions\<close> and
  \<open>conversion\<close> are not part of the sources. A command is data the core only arranges; an
  expression is opaque, carried with the truth value Python's \<^verbatim>\<open>bool(arg)\<close> gives it; a
  condition is carried as what its \<^verbatim>\<open>to_str()\<close> returns; \<open>VarToVar a b\<close> stands for the
  command \<^verbatim>\<open>var_to_var(a, b)\<close>.
\<close>

datatype fmtarg = PathString addr | UniqueString string

datatype expr = Expression (truthy: bool) (label: string)

datatype command =
    Comment string "fmtarg list"
  | LiteralCommand string "fmtarg list"
  | FunctionCall addr
  | ComposedCommand "command list"
  | VarToVar expr expr

datatype condition = Condition string "fmtarg list"

fun to_str :: "condition \<Rightarrow> string \<times> fmtarg list" where
  "to_str (Condition s us) = (s, us)"

text \<open>
  Modelled from the spec: \<^verbatim>\<open>STD_ARG\<close> and \<^verbatim>\<open>STD_RET\<close> of \<^verbatim>\<open>lib/std.py\<close> are the dedicated
  argument and return registers (scoreboard variables built from classes that are not in
  the sources).
\<close>

definition STD_ARG :: expr where
  "STD_ARG = Expression True ''arg''"

definition STD_RET :: expr where
  "STD_RET = Expression True ''ret''"

datatype tagref = TagName string | TagObject addr

datatype val = IntVal int | StrVal string

type_synonym kwargs = "(string \<times> val) list"

record pathable_obj =
  name :: string
  parent :: "addr option"

record namespace_obj = pathable_obj +
  children :: "(string \<times> addr) list"

record mcfunction_obj = pathable_obj +
  description :: string
  tags :: "tagref set"
  commands :: "command list"
  continuation :: "addr option"

text \<open>
  \<open>continuation_f\<close> is the attribute \<^verbatim>\<open>continuation\<close> of a \<^verbatim>\<open>Function\<close> (the unit's
  attribute of the same name is \<^const>\<open>continuation\<close>). \<open>template\<close> is a handle of the
  user's callable: the callable itself is looked up in an environment (see
  \<open>template_call\<close>).
\<close>

record function_obj = namespace_obj +
  args :: "string list"
  continuation_f :: "addr option"
  entry_point :: addr
  current_mcfunction :: addr
  was_ended :: bool

record template_obj = namespace_obj +
  template :: nat
  functions_t :: "(kwargs \<times> addr) list"

record class_obj = namespace_obj +
  inherits_from :: "addr list"

datatype obj =
    Namespace namespace_obj
  | FunctionTag pathable_obj
  | MCFunction mcfunction_obj
  | Function function_obj
  | Template template_obj
  | Class class_obj

type_synonym heap = "obj list"

text \<open>
  Errors as values. \<open>UnknownSymbol\<close> is the \<^verbatim>\<open>KeyError\<close> of \<^verbatim>\<open>self.children[name]\<close>;
  \<open>UseAfterEnd\<close> is the \<^verbatim>\<open>AssertionError\<close> of \<^verbatim>\<open>assert not self.was_ended\<close>;
  \<open>UnfinishedScope p\<close> is the \<^verbatim>\<open>AssertionError\<close> of \<^verbatim>\<open>get_all_mcfunctions\<close>, whose message
  names the path \<open>p\<close>; \<open>UnimplementedFeature\<close> is \<^verbatim>\<open>NotImplementedError\<close>; \<open>BadReference\<close>
  is what the model answers where Python would read an attribute of an object that does
  not have it (an object of the wrong class, or an address that holds no object).
\<close>

datatype error =
    UnknownSymbol string
  | UseAfterEnd
  | UnfinishedScope "string list"
  | UnimplementedFeature
  | BadReference

definition lookup :: "heap \<Rightarrow> addr \<Rightarrow> obj option" where
  "lookup h a = (if a < length h then Some (h ! a) else None)"

fun obj_name :: "obj \<Rightarrow> string" where
  "obj_name (Namespace n) = name n"
| "obj_name (FunctionTag t) = name t"
| "obj_name (MCFunction m) = name m"
| "obj_name (Function f) = name f"
| "obj_name (Template t) = name t"
| "obj_name (Class c) = name c"

fun obj_parent :: "obj \<Rightarrow> addr option" where
  "obj_parent (Namespace n) = parent n"
| "obj_parent (FunctionTag t) = parent t"
| "obj_parent (MCFunction m) = parent m"
| "obj_parent (Function f) = parent f"
| "obj_parent (Template t) = parent t"
| "obj_parent (Class c) = parent c"

fun set_parent :: "addr option \<Rightarrow> obj \<Rightarrow> obj" where
  "set_parent p (Namespace n) = Namespace (n\<lparr>parent := p\<rparr>)"
| "set_parent p (FunctionTag t) = FunctionTag (t\<lparr>parent := p\<rparr>)"
| "set_parent p (MCFunction m) = MCFunction (m\<lparr>parent := p\<rparr>)"
| "set_parent p (Function f) = Function (f\<lparr>parent := p\<rparr>)"
| "set_parent p (Template t) = Template (t\<lparr>parent := p\<rparr>)"
| "set_parent p (Class c) = Class (c\<lparr>parent := p\<rparr>)"

text \<open>The \<^verbatim>\<open>children\<close> of an instance of \<^verbatim>\<open>Namespace\<close> or of one of its subclasses.\<close>

fun obj_children :: "obj \<Rightarrow> (string \<times> addr) list option" where
  "obj_children (Namespace n) = Some (children n)"
| "obj_children (Function f) = Some (children f)"
| "obj_children (Template t) = Some (children t)"
| "obj_children (Class c) = Some (children c)"
| "obj_children (FunctionTag t) = None"
| "obj_children (MCFunction m) = None"

fun set_children :: "(string \<times> addr) list \<Rightarrow> obj \<Rightarrow> obj" where
  "set_children cs (Namespace n) = Namespace (n\<lparr>children := cs\<rparr>)"
| "set_children cs (Function f) = Function (f\<lparr>children := cs\<rparr>)"
| "set_children cs (Template t) = Template (t\<lparr>children := cs\<rparr>)"
| "set_children cs (Class c) = Class (c\<lparr>children := cs\<rparr>)"
| "set_children cs (FunctionTag t) = FunctionTag t"
| "set_children cs (MCFunction m) = MCFunction m"

text \<open>Python's \<^verbatim>\<open>str(n)\<close> for a length, as the f-strings of \<^verbatim>\<open>c_if\<close> render it.\<close>

definition digit_char :: "nat \<Rightarrow> char" where
  "digit_char d = ''0123456789'' ! d"

fun str_nat :: "nat \<Rightarrow> string" where
  "str_nat n = (if n < 10 then [digit_char n] else str_nat (n div 10) @ [digit_char (n mod 10)])"

declare str_nat.simps [simp del]

section \<open>Pathable and Namespace\<close>

text \<open>
  \<^verbatim>\<open>Pathable.path\<close> follows the parent links. The first argument is the depth of call
  stack left: at depth 0 the interpreter gives up (\<open>None\<close>), which is also what a cycle of
  parents comes to.
\<close>

fun path :: "nat \<Rightarrow> heap \<Rightarrow> addr \<Rightarrow> (error + string list) option" where
  "path 0 h a = None"
| "path (Suc n) h a =
     (case lookup h a of
        None \<Rightarrow> Some (Inl BadReference)
      | Some ob \<Rightarrow>
          (case obj_parent ob of
             None \<Rightarrow> Some (Inr [obj_name ob])
           | Some p \<Rightarrow>
               (case path n h p of
                  None \<Rightarrow> None
                | Some (Inl e) \<Rightarrow> Some (Inl e)
                | Some (Inr ps) \<Rightarrow> Some (Inr (ps @ [obj_name ob])))))"

text \<open>\<^verbatim>\<open>Namespace.__init__\<close>; the class attribute \<^verbatim>\<open>parent = None\<close> is the default.\<close>

definition new_namespace :: "heap \<Rightarrow> string \<Rightarrow> addr \<times> heap" where
  "new_namespace h n =
     (length h, h @ [Namespace \<lparr>name = n, parent = None, children = []\<rparr>])"

text \<open>
  \<^verbatim>\<open>Namespace.add\<close>: for each argument, bind its name in \<^verbatim>\<open>self.children\<close>, then set
  its \<^verbatim>\<open>parent\<close>. The child is read again after the first assignment, since it may be
  \<^verbatim>\<open>self\<close>.
\<close>

fun add :: "heap \<Rightarrow> addr \<Rightarrow> addr list \<Rightarrow> error + heap" where
  "add h self [] = Inr h"
| "add h self (c # cs) =
     (case lookup h c of
        None \<Rightarrow> Inl BadReference
      | Some child \<Rightarrow>
          (case lookup h self of
             None \<Rightarrow> Inl BadReference
           | Some s \<Rightarrow>
               (case obj_children s of
                  None \<Rightarrow> Inl BadReference
                | Some chs \<Rightarrow>
                    (let h1 = h[self := set_children (AList.update (obj_name child) c chs) s]
                     in add (h1[c := set_parent (Some self) (h1 ! c)]) self cs))))"

text \<open>\<^verbatim>\<open>Namespace.get\<close>: \<^verbatim>\<open>self.children[name]\<close>.\<close>

definition namespace_get :: "heap \<Rightarrow> addr \<Rightarrow> string \<Rightarrow> error + addr" where
  "namespace_get h self s =
     (case lookup h self of
        None \<Rightarrow> Inl BadReference
      | Some ob \<Rightarrow>
          (case obj_children ob of
             None \<Rightarrow> Inl BadReference
           | Some chs \<Rightarrow>
               (case map_of chs s of
                  None \<Rightarrow> Inl (UnknownSymbol s)
                | Some c \<Rightarrow> Inr c)))"

definition create_namespace :: "heap \<Rightarrow> addr \<Rightarrow> string \<Rightarrow> error + addr \<times> heap" where
  "create_namespace h self n =
     (case new_namespace h n of
        (namespace, h1) \<Rightarrow>
          (case add h1 self [namespace] of
             Inl e \<Rightarrow> Inl e
           | Inr h2 \<Rightarrow> Inr (namespace, h2)))"

text \<open>\<^verbatim>\<open>MCFunction.__init__\<close>.\<close>

definition new_mcfunction :: "heap \<Rightarrow> string \<Rightarrow> tagref set \<Rightarrow> string \<Rightarrow> addr \<times> heap" where
  "new_mcfunction h n tgs d =
     (length h,
      h @ [MCFunction \<lparr>name = n, parent = None, description = d, tags = tgs,
                       commands = [], continuation = None\<rparr>])"

definition create_mcfunction ::
  "heap \<Rightarrow> addr \<Rightarrow> string \<Rightarrow> tagref set \<Rightarrow> string \<Rightarrow> error + addr \<times> heap" where
  "create_mcfunction h self n tgs d =
     (case new_mcfunction h n tgs d of
        (mcfunction, h1) \<Rightarrow>
          (case add h1 self [mcfunction] of
             Inl e \<Rightarrow> Inl e
           | Inr h2 \<Rightarrow> Inr (mcfunction, h2)))"

text \<open>
  \<^verbatim>\<open>Function.__init__\<close>: the Namespace part, then the entry unit, created with
  \<^verbatim>\<open>self.create_mcfunction(self.name, ...)\<close> and so bound in the new Function's own
  \<^verbatim>\<open>children\<close> under the Function's name, with the Function as its parent; the cursor
  starts at the entry unit. The Function is allocated first, its entry unit next.
\<close>

definition new_function ::
  "heap \<Rightarrow> string \<Rightarrow> string list \<Rightarrow> string \<Rightarrow> tagref set \<Rightarrow> addr \<times> heap" where
  "new_function h n as d tgs =
     (let f = length h; m = Suc (length h) in
      (f, h @ [Function \<lparr>name = n, parent = None, children = [(n, m)], args = as,
                          continuation_f = None, entry_point = m,
                          current_mcfunction = m, was_ended = False\<rparr>,
               MCFunction \<lparr>name = n, parent = Some f, description = d, tags = tgs,
                            commands = [], continuation = None\<rparr>]))"

definition create_function ::
  "heap \<Rightarrow> addr \<Rightarrow> string \<Rightarrow> string list \<Rightarrow> string \<Rightarrow> tagref set \<Rightarrow> error + addr \<times> heap" where
  "create_function h self n as d tgs =
     (case new_function h n as d tgs of
        (function, h1) \<Rightarrow>
          (case add h1 self [function] of
             Inl e \<Rightarrow> Inl e
           | Inr h2 \<Rightarrow> Inr (function, h2)))"

text \<open>
  \<^verbatim>\<open>Namespace.create_function_tag\<close>: the tag gets \<^verbatim>\<open>self\<close> as its parent, twice, and
  \<^verbatim>\<open>self.add\<close> is not called.
\<close>

definition create_function_tag :: "heap \<Rightarrow> addr \<Rightarrow> string \<Rightarrow> addr \<times> heap" where
  "create_function_tag h self n =
     (let function_tag = length h;
          h1 = h @ [FunctionTag \<lparr>name = n, parent = Some self\<rparr>];
          h2 = h1[function_tag := set_parent (Some self) (h1 ! function_tag)]
      in (function_tag, h2))"

definition new_class :: "heap \<Rightarrow> string \<Rightarrow> addr list \<Rightarrow> addr \<times> heap" where
  "new_class h n ps =
     (length h, h @ [Class \<lparr>name = n, parent = None, children = [], inherits_from = ps\<rparr>])"

definition create_class :: "heap \<Rightarrow> addr \<Rightarrow> string \<Rightarrow> addr list \<Rightarrow> error + addr \<times> heap" where
  "create_class h self n ps =
     (case new_class h n ps of
        (cls, h1) \<Rightarrow>
          (case add h1 self [cls] of
             Inl e \<Rightarrow> Inl e
           | Inr h2 \<Rightarrow> Inr (cls, h2)))"

definition new_template :: "heap \<Rightarrow> string \<Rightarrow> nat \<Rightarrow> addr \<times> heap" where
  "new_template h n t =
     (length h,
      h @ [Template \<lparr>name = n, parent = None, children = [], template = t, functions_t = []\<rparr>])"

definition create_template :: "heap \<Rightarrow> addr \<Rightarrow> string \<Rightarrow> nat \<Rightarrow> error + addr \<times> heap" where
  "create_template h self n t =
     (case new_template h n t of
        (tmpl, h1) \<Rightarrow>
          (case add h1 self [tmpl] of
             Inl e \<Rightarrow> Inl e
           | Inr h2 \<Rightarrow> Inr (tmpl, h2)))"

section \<open>MCFunction and Function\<close>

text \<open>\<^verbatim>\<open>MCFunction.add_command\<close>: \<^verbatim>\<open>self.commands.append(command)\<close>.\<close>

definition mcfunction_add_command :: "heap \<Rightarrow> addr \<Rightarrow> command \<Rightarrow> error + heap" where
  "mcfunction_add_command h self c =
     (case lookup h self of
        Some (MCFunction m) \<Rightarrow> Inr (h[self := MCFunction (m\<lparr>commands := commands m @ [c]\<rparr>)])
      | _ \<Rightarrow> Inl BadReference)"

text \<open>The loop of \<^verbatim>\<open>Function.add_command\<close>; it reads the cursor at every turn.\<close>

fun add_commands :: "heap \<Rightarrow> addr \<Rightarrow> command list \<Rightarrow> error + heap" where
  "add_commands h self [] = Inr h"
| "add_commands h self (c # cs) =
     (case lookup h self of
        Some (Function f) \<Rightarrow>
          (case mcfunction_add_command h (current_mcfunction f) c of
             Inl e \<Rightarrow> Inl e
           | Inr h1 \<Rightarrow> add_commands h1 self cs)
      | _ \<Rightarrow> Inl BadReference)"

text \<open>\<^verbatim>\<open>Function.add_command\<close>: the assertion first, then the loop.\<close>

definition add_command :: "heap \<Rightarrow> addr \<Rightarrow> command list \<Rightarrow> error + heap" where
  "add_command h self cmds =
     (case lookup h self of
        Some (Function f) \<Rightarrow>
          (if was_ended f then Inl UseAfterEnd else add_commands h self cmds)
      | _ \<Rightarrow> Inl BadReference)"

definition comment :: "heap \<Rightarrow> addr \<Rightarrow> string \<Rightarrow> fmtarg list \<Rightarrow> error + heap" where
  "comment h self s as = add_command h self [Comment s as]"

text \<open>
  The text of the comment that \<^verbatim>\<open>c_call_function\<close> emits first:
  \<^verbatim>\<open>' with STD_ARG' * bool(arg)\<close> and \<^verbatim>\<open>f' with {len(varargs)} varargs' * bool(varargs)\<close>.
\<close>

definition call_comment :: "expr option \<Rightarrow> expr list \<Rightarrow> string" where
  "call_comment arg varargs =
     ''calling function %s''
     @ (if (case arg of None \<Rightarrow> False | Some a \<Rightarrow> truthy a) then '' with STD_ARG'' else [])
     @ (if varargs \<noteq> [] then '' with '' @ str_nat (length varargs) @ '' varargs'' else [])"

text \<open>
  \<^verbatim>\<open>Function.c_call_function\<close>. Modelled from the spec: \<^verbatim>\<open>std_stack_push\<close> and
  \<^verbatim>\<open>STD_ARGSTACK\<close> live in \<^verbatim>\<open>lib/stack.py\<close>, which is not part of the sources; the
  first argument \<open>push\<close> is the Function that \<^verbatim>\<open>std_stack_push(stack_nr=STD_ARGSTACK)\<close>
  returns, the external stack-push routine. \<open>push_varargs\<close> is the loop over the varargs,
  each turn a recursive call with that vararg as \<^verbatim>\<open>arg\<close> and no varargs.
\<close>

function c_call_function ::
    "addr \<Rightarrow> heap \<Rightarrow> addr \<Rightarrow> addr \<Rightarrow> expr option \<Rightarrow> expr list \<Rightarrow> error + heap"
  and push_varargs :: "addr \<Rightarrow> heap \<Rightarrow> addr \<Rightarrow> expr list \<Rightarrow> error + heap" where
  "c_call_function push h self function arg varargs =
     (case comment h self (call_comment arg varargs) [PathString function] of
        Inl e \<Rightarrow> Inl e
      | Inr h1 \<Rightarrow>
          (case push_varargs push h1 self varargs of
             Inl e \<Rightarrow> Inl e
           | Inr h2 \<Rightarrow>
               (case (case arg of
                        None \<Rightarrow> Inr h2
                      | Some a \<Rightarrow> add_command h2 self [VarToVar a STD_ARG]) of
                  Inl e \<Rightarrow> Inl e
                | Inr h3 \<Rightarrow>
                    (case lookup h3 function of
                       Some (Function f) \<Rightarrow> add_command h3 self [FunctionCall (entry_point f)]
                     | _ \<Rightarrow> Inl BadReference))))"
| "push_varargs push h self [] = Inr h"
| "push_varargs push h self (v # vs) =
     (case c_call_function push h self push (Some v) [] of
        Inl e \<Rightarrow> Inl e
      | Inr h1 \<Rightarrow> push_varargs push h1 self vs)"
  by pat_completeness auto
termination
  by (relation "measure (\<lambda>x. case x of
                   Inl (push, h, self, function, arg, varargs) \<Rightarrow> 2 * length varargs + 1
                 | Inr (push, h, self, varargs) \<Rightarrow> 2 * length varargs)") auto

text \<open>
  \<^verbatim>\<open>Function.c_if\<close>. Both names are built from \<^verbatim>\<open>len(self.children)\<close>, read anew each
  time; the chained assignment sets \<^verbatim>\<open>if_.continuation\<close> first, the cursor second
  (\<open>if_fn\<close> is the variable \<^verbatim>\<open>if_\<close>).
\<close>

definition c_if :: "heap \<Rightarrow> addr \<Rightarrow> condition \<Rightarrow> error + addr \<times> heap" where
  "c_if h self cond =
     (case lookup h self of
        Some (Function f0) \<Rightarrow>
          (case create_function h self (''if'' @ str_nat (length (children f0))) [] [] {} of
             Inl e \<Rightarrow> Inl e
           | Inr (if_fn, h1) \<Rightarrow>
               (case lookup h1 self of
                  Some (Function f1) \<Rightarrow>
                    (case create_mcfunction h1 self
                            (''if-continue'' @ str_nat (length (children f1))) {} [] of
                       Inl e \<Rightarrow> Inl e
                     | Inr (new_mcfunc, h2) \<Rightarrow>
                         (case to_str cond of
                            (string, u_strings) \<Rightarrow>
                              (case lookup h2 if_fn of
                                 Some (Function i) \<Rightarrow>
                                   (case add_command h2 self
                                      [ComposedCommand
                                         [LiteralCommand (''execute if '' @ string @ '' run'') u_strings,
                                          FunctionCall (entry_point i)],
                                       ComposedCommand
                                         [LiteralCommand (''execute unless '' @ string @ '' run'') u_strings,
                                          FunctionCall new_mcfunc]] of
                                      Inl e \<Rightarrow> Inl e
                                    | Inr h3 \<Rightarrow>
                                        (case lookup h3 if_fn of
                                           Some (Function i3) \<Rightarrow>
                                             (let h4 = h3[if_fn := Function (i3\<lparr>continuation_f := Some new_mcfunc\<rparr>)]
                                              in (case lookup h4 self of
                                                    Some (Function f4) \<Rightarrow>
                                                      Inr (if_fn, h4[self := Function (f4\<lparr>current_mcfunction := new_mcfunc\<rparr>)])
                                                  | _ \<Rightarrow> Inl BadReference))
                                         | _ \<Rightarrow> Inl BadReference))
                               | _ \<Rightarrow> Inl BadReference)))
                | _ \<Rightarrow> Inl BadReference))
      | _ \<Rightarrow> Inl BadReference)"

definition c_while :: "heap \<Rightarrow> addr \<Rightarrow> error + heap" where
  "c_while h self = Inl UnimplementedFeature"

text \<open>\<^verbatim>\<open>Function.end\<close> (\<open>end\<close> is a keyword of the theory language).\<close>

definition end_fn :: "heap \<Rightarrow> addr \<Rightarrow> error + heap" where
  "end_fn h self =
     (case lookup h self of
        Some (Function f) \<Rightarrow>
          (if was_ended f then Inr h
           else
             (case lookup h (current_mcfunction f) of
                Some (MCFunction m) \<Rightarrow>
                  (let h1 = h[current_mcfunction f := MCFunction (m\<lparr>continuation := continuation_f f\<rparr>)]
                   in Inr (h1[self := Function (f\<lparr>was_ended := True\<rparr>)]))
              | _ \<Rightarrow> Inl BadReference))
      | _ \<Rightarrow> Inl BadReference)"

text \<open>\<^verbatim>\<open>Function.return_\<close> (a name cannot end with an underscore here).\<close>

definition return_fn :: "heap \<Rightarrow> addr \<Rightarrow> expr \<Rightarrow> error + heap" where
  "return_fn h self var =
     (case add_command h self [VarToVar var STD_RET] of
        Inl e \<Rightarrow> Inl e
      | Inr h1 \<Rightarrow>
          (case lookup h1 self of
             Some (Function f) \<Rightarrow>
               (case lookup h1 (current_mcfunction f) of
                  Some (MCFunction m) \<Rightarrow>
                    Inr (h1[current_mcfunction f := MCFunction (m\<lparr>continuation := None\<rparr>)])
                | _ \<Rightarrow> Inl BadReference)
           | _ \<Rightarrow> Inl BadReference))"

section \<open>Template and Class\<close>



text \<open>
  \<^verbatim>\<open>Class.get\<close>, with the dispatch of \<^verbatim>\<open>parent.get(name)\<close> on the class of the
  parent: a Class runs \<^verbatim>\<open>Class.get\<close>, any other Namespace runs \<^verbatim>\<open>Namespace.get\<close>. Only a
  \<^verbatim>\<open>KeyError\<close> is caught; the bare \<^verbatim>\<open>raise\<close> raises the first one again. The first
  argument is the depth of call stack left, as for \<^const>\<open>path\<close>.
\<close>

fun get :: "nat \<Rightarrow> heap \<Rightarrow> addr \<Rightarrow> string \<Rightarrow> (error + addr) option"
  and get_inherited :: "nat \<Rightarrow> heap \<Rightarrow> addr list \<Rightarrow> string \<Rightarrow> error \<Rightarrow> (error + addr) option" where
  "get 0 h self s = None"
| "get (Suc n) h self s =
     (case lookup h self of
        Some (Class c) \<Rightarrow>
          (case namespace_get h self s of
             Inr x \<Rightarrow> Some (Inr x)
           | Inl (UnknownSymbol k) \<Rightarrow> get_inherited n h (inherits_from c) s (UnknownSymbol k)
           | Inl e \<Rightarrow> Some (Inl e))
      | _ \<Rightarrow> Some (namespace_get h self s))"
| "get_inherited n h [] s e = Some (Inl e)"
| "get_inherited n h (p # ps) s e =
     (case get n h p s of
        None \<Rightarrow> None
      | Some (Inr x) \<Rightarrow> Some (Inr x)
      | Some (Inl (UnknownSymbol k)) \<Rightarrow> get_inherited n h ps s e
      | Some (Inl e') \<Rightarrow> Some (Inl e'))"

section \<open>The export pass\<close>

text \<open>
  \<^verbatim>\<open>mcfunctions |= d\<close>: the entries of \<open>d\<close> are written into the dictionary one by one,
  in the order of \<open>d\<close>.
\<close>

definition dict_ior :: "('k \<times> 'v) list \<Rightarrow> ('k \<times> 'v) list \<Rightarrow> ('k \<times> 'v) list" where
  "dict_ior acc d = fold (\<lambda>(k, v). AList.update k v) d acc"

text \<open>
  \<^verbatim>\<open>Namespace.get_all_mcfunctions\<close>, and its loop over \<^verbatim>\<open>self.children.values()\<close> as
  \<open>collect_children\<close>. The first argument is the depth of call stack left for the
  recursion and for the calls of \<^verbatim>\<open>path\<close> inside it. The result maps a path to the address
  of its unit, in the order of the Python dictionary.
\<close>

fun get_all_mcfunctions ::
    "nat \<Rightarrow> heap \<Rightarrow> addr \<Rightarrow> (error + (string list \<times> addr) list) option"
  and collect_children ::
    "nat \<Rightarrow> heap \<Rightarrow> addr list \<Rightarrow> (string list \<times> addr) list
       \<Rightarrow> (error + (string list \<times> addr) list) option" where
  "get_all_mcfunctions 0 h self = None"
| "get_all_mcfunctions (Suc n) h self =
     (case lookup h self of
        None \<Rightarrow> Some (Inl BadReference)
      | Some ob \<Rightarrow>
          (case obj_children ob of
             None \<Rightarrow> Some (Inl BadReference)
           | Some chs \<Rightarrow> collect_children n h (map snd chs) []))"
| "collect_children n h [] mcfunctions = Some (Inr mcfunctions)"
| "collect_children n h (child # rest) mcfunctions =
     (case lookup h child of
        None \<Rightarrow> Some (Inl BadReference)
      | Some (MCFunction m) \<Rightarrow>
          (case path n h child of
             None \<Rightarrow> None
           | Some (Inl e) \<Rightarrow> Some (Inl e)
           | Some (Inr p) \<Rightarrow> collect_children n h rest (AList.update p child mcfunctions))
      | Some (FunctionTag t) \<Rightarrow> collect_children n h rest mcfunctions
      | Some ob \<Rightarrow>
          (if (case ob of Function f \<Rightarrow> \<not> was_ended f | _ \<Rightarrow> False)
           then (case path n h child of
                   None \<Rightarrow> None
                 | Some (Inl e) \<Rightarrow> Some (Inl e)
                 | Some (Inr p) \<Rightarrow> Some (Inl (UnfinishedScope p)))
           else (case get_all_mcfunctions n h child of
                   None \<Rightarrow> None
                 | Some (Inl e) \<Rightarrow> Some (Inl e)
                 | Some (Inr d) \<Rightarrow> collect_children n h rest (dict_ior mcfunctions d))))"

section \<open>Notions used to state the properties\<close>

text \<open>
  A heap is closed when every parent link and every child entry of its objects is the
  address of an object of the heap. Python cannot build any other heap; the model can,
  so the statements that walk the tree say it.
\<close>

definition closed :: "heap \<Rightarrow> bool" where
  "closed h =
     list_all (\<lambda>ob. (case obj_parent ob of None \<Rightarrow> True | Some p \<Rightarrow> p < length h)
                  \<and> (case obj_children ob of
                        None \<Rightarrow> True
                      | Some cs \<Rightarrow> list_all (\<lambda>c. c < length h) (map snd cs))) h"

text \<open>
  The two commands that \<^verbatim>\<open>c_if\<close> emits, given the entry unit of the then-branch and
  the continuation unit.
\<close>

definition if_commands :: "condition \<Rightarrow> addr \<Rightarrow> addr \<Rightarrow> command list" where
  "if_commands cond entry cont =
     (case to_str cond of
        (string, u_strings) \<Rightarrow>
          [ComposedCommand [LiteralCommand (''execute if '' @ string @ '' run'') u_strings,
                            FunctionCall entry],
           ComposedCommand [LiteralCommand (''execute unless '' @ string @ '' run'') u_strings,
                            FunctionCall cont]])"

text \<open>
  The commands of a call: \<open>set_arg\<close> is the command that sets the argument register, if a
  scalar argument is given; \<open>push_call\<close> is what one push of a vararg emits, that is what
  \<^verbatim>\<open>c_call_function(push, arg=v)\<close> emits.
\<close>

definition set_arg :: "expr option \<Rightarrow> command list" where
  "set_arg arg = (case arg of None \<Rightarrow> [] | Some a \<Rightarrow> [VarToVar a STD_ARG])"

definition push_call :: "addr \<Rightarrow> addr \<Rightarrow> expr \<Rightarrow> command list" where
  "push_call push push_entry v =
     [Comment (call_comment (Some v) []) [PathString push], VarToVar v STD_ARG,
      FunctionCall push_entry]"

declare c_call_function.simps [simp del]

text \<open>
  A class hierarchy of depth at most \<open>n\<close>: the object is a Namespace of some class, and if
  it is a Class, each declared parent is again such a hierarchy, one level less deep. A
  cycle of \<^verbatim>\<open>inherits_from\<close> is no hierarchy of any depth.
\<close>

fun hierarchy :: "nat \<Rightarrow> heap \<Rightarrow> addr \<Rightarrow> bool" where
  "hierarchy 0 h c = False"
| "hierarchy (Suc n) h c =
     (case lookup h c of
        None \<Rightarrow> False
      | Some (Class k) \<Rightarrow> list_all (hierarchy n h) (inherits_from k)
      | Some ob \<Rightarrow> obj_children ob \<noteq> None)"

text \<open>The two results a lookup of \<open>s\<close> can have in a hierarchy: a hit, or the miss of \<open>s\<close>.\<close>

definition hit_or_miss :: "string \<Rightarrow> error + addr \<Rightarrow> bool" where
  "hit_or_miss s r = (case r of Inl e \<Rightarrow> e = UnknownSymbol s | Inr x \<Rightarrow> True)"

text \<open>
  A namespace tree of height at most \<open>n\<close> below the object \<open>a\<close>: the children of every
  Namespace in it are bound under distinct keys, each child is bound under its own name
  and has the Namespace as its parent (what \<^verbatim>\<open>Namespace.add\<close> establishes), and each child
  is again such a tree, one level less high. A cycle of children is no tree of any height.
\<close>

fun wf_tree :: "nat \<Rightarrow> heap \<Rightarrow> addr \<Rightarrow> bool" where
  "wf_tree 0 h a = False"
| "wf_tree (Suc n) h a =
     (case lookup h a of
        None \<Rightarrow> False
      | Some ob \<Rightarrow>
          (case obj_children ob of
             None \<Rightarrow> True
           | Some chs \<Rightarrow>
               distinct (map fst chs)
               \<and> list_all (\<lambda>(k, c). wf_tree n h c
                               \<and> (case lookup h c of
                                     None \<Rightarrow> False
                                   | Some co \<Rightarrow> obj_name co = k \<and> obj_parent co = Some a))
                     chs))"

text \<open>
  The objects below \<open>a\<close>, down to depth \<open>n\<close>, in the order of the traversal: each child,
  followed by what is below it. For a tree of height at most \<open>n\<close> these are all of them.
\<close>

fun descendants :: "nat \<Rightarrow> heap \<Rightarrow> addr \<Rightarrow> addr list" where
  "descendants 0 h a = []"
| "descendants (Suc n) h a =
     (case lookup h a of
        None \<Rightarrow> []
      | Some ob \<Rightarrow>
          (case obj_children ob of
             None \<Rightarrow> []
           | Some chs \<Rightarrow> concat (map (\<lambda>c. c # descendants n h c) (map snd chs))))"

text \<open>A Function that has not been ended, and a unit; as objects and as addresses.\<close>

definition unended_obj :: "obj \<Rightarrow> bool" where
  "unended_obj ob = (case ob of Function f \<Rightarrow> \<not> was_ended f | _ \<Rightarrow> False)"

definition unended :: "heap \<Rightarrow> addr \<Rightarrow> bool" where
  "unended h c = (case lookup h c of Some (Function f) \<Rightarrow> \<not> was_ended f | _ \<Rightarrow> False)"

definition is_unit :: "heap \<Rightarrow> addr \<Rightarrow> bool" where
  "is_unit h c = (case lookup h c of Some (MCFunction m) \<Rightarrow> True | _ \<Rightarrow> False)"

text \<open>The unit at an address with its commands, and the entry unit of a Function.\<close>

definition commands_of :: "heap \<Rightarrow> addr \<Rightarrow> command list option" where
  "commands_of h a = (case lookup h a of Some (MCFunction m) \<Rightarrow> Some (commands m) | _ \<Rightarrow> None)"

definition entry_point_of :: "heap \<Rightarrow> addr \<Rightarrow> addr option" where
  "entry_point_of h a = (case lookup h a of Some (Function f) \<Rightarrow> Some (entry_point f) | _ \<Rightarrow> None)"

text \<open>
  The pairs of a path and a unit, for the units among the objects \<open>us\<close>; and what a run of
  the export pass over \<open>us\<close>, started with the dictionary \<open>acc\<close>, comes to at some depth of
  stack: the error that names a Function of \<open>us\<close> that is not ended, if there is one, and
  otherwise \<open>acc\<close> overwritten with the units of \<open>us\<close>.
\<close>

definition units_in :: "heap \<Rightarrow> addr list \<Rightarrow> (string list \<times> addr) set" where
  "units_in h us = {(p, u). u \<in> set us \<and> is_unit h u \<and> (\<exists>d. path d h u = Some (Inr p))}"

definition export_outcome ::
  "heap \<Rightarrow> addr list \<Rightarrow> (string list \<rightharpoonup> addr)
     \<Rightarrow> (nat \<Rightarrow> (error + (string list \<times> addr) list) option) \<Rightarrow> bool" where
  "export_outcome h us acc run =
     (if \<exists>c\<in>set us. unended h c
      then \<exists>c p d. c \<in> set us \<and> unended h c \<and> path d h c = Some (Inr p)
             \<and> run d = Some (Inl (UnfinishedScope p))
      else \<exists>m d. run d = Some (Inr m)
             \<and> (\<forall>p u. (map_of m p = Some u)
                   = ((p, u) \<in> units_in h us \<or> (acc p = Some u \<and> p \<notin> fst ` units_in h us))))"

text \<open>
  A Function whose \<open>was_ended\<close> is set, as an object and as an address; and the heaps that
  come later than a heap \<open>h\<close>: those reached from \<open>h\<close> by any sequence of calls, each of
  which returned, of the methods of Namespace and Function modelled above, on any
  objects and with any arguments. (\<^verbatim>\<open>Template.__call__\<close> runs the user's code and is not
  among them.)
\<close>

definition ended_obj :: "obj \<Rightarrow> bool" where
  "ended_obj ob = (case ob of Function f \<Rightarrow> was_ended f | _ \<Rightarrow> False)"

definition ended :: "heap \<Rightarrow> addr \<Rightarrow> bool" where
  "ended h a = (case lookup h a of None \<Rightarrow> False | Some ob \<Rightarrow> ended_obj ob)"

inductive later :: "addr \<Rightarrow> heap \<Rightarrow> heap \<Rightarrow> bool" for push :: addr where
  later_refl: "later push h h"
| later_add: "later push h h1 \<Longrightarrow> add h1 n cs = Inr h2 \<Longrightarrow> later push h h2"
| later_create_namespace:
    "later push h h1 \<Longrightarrow> create_namespace h1 n s = Inr (c, h2) \<Longrightarrow> later push h h2"
| later_create_function:
    "later push h h1 \<Longrightarrow> create_function h1 n s as d tgs = Inr (c, h2) \<Longrightarrow> later push h h2"
| later_create_mcfunction:
    "later push h h1 \<Longrightarrow> create_mcfunction h1 n s tgs d = Inr (c, h2) \<Longrightarrow> later push h h2"
| later_create_function_tag:
    "later push h h1 \<Longrightarrow> create_function_tag h1 n s = (c, h2) \<Longrightarrow> later push h h2"
| later_create_class:
    "later push h h1 \<Longrightarrow> create_class h1 n s ps = Inr (c, h2) \<Longrightarrow> later push h h2"
| later_create_template:
    "later push h h1 \<Longrightarrow> create_template h1 n s t = Inr (c, h2) \<Longrightarrow> later push h h2"
| later_add_command:
    "later push h h1 \<Longrightarrow> add_command h1 f cmds = Inr h2 \<Longrightarrow> later push h h2"
| later_c_call_function:
    "later push h h1 \<Longrightarrow> c_call_function push h1 f g arg varargs = Inr h2
       \<Longrightarrow> later push h h2"
| later_c_if: "later push h h1 \<Longrightarrow> c_if h1 f cond = Inr (c, h2) \<Longrightarrow> later push h h2"
| later_end: "later push h h1 \<Longrightarrow> end_fn h1 f = Inr h2 \<Longrightarrow> later push h h2"
| later_return: "later push h h1 \<Longrightarrow> return_fn h1 f v = Inr h2 \<Longrightarrow> later push h h2"

section \<open>Example heaps\<close>

text \<open>A root namespace and two units of the same name, not yet added to it.\<close>

definition two_units :: heap where
  "two_units =
     [Namespace \<lparr>name = ''ns'', parent = None, children = []\<rparr>,
      MCFunction \<lparr>name = ''u'', parent = None, description = [], tags = {},
                   commands = [], continuation = None\<rparr>,
      MCFunction \<lparr>name = ''u'', parent = None, description = [], tags = {},
                   commands = [], continuation = None\<rparr>]"

text \<open>
  A root namespace with two Functions, \<open>f\<close> and \<open>push\<close>, as \<^verbatim>\<open>create_function\<close> leaves
  them: neither is ended, each cursor is at the entry unit.
\<close>

definition fn_heap :: heap where
  "fn_heap =
     [Namespace \<lparr>name = ''ns'', parent = None, children = [(''f'', 1), (''push'', 3)]\<rparr>,
      Function \<lparr>name = ''f'', parent = Some 0, children = [(''f'', 2)], args = [],
                 continuation_f = None, entry_point = 2, current_mcfunction = 2,
                 was_ended = False\<rparr>,
      MCFunction \<lparr>name = ''f'', parent = Some 1, description = [], tags = {},
                   commands = [], continuation = None\<rparr>,
      Function \<lparr>name = ''push'', parent = Some 0, children = [(''push'', 4)], args = [],
                 continuation_f = None, entry_point = 4, current_mcfunction = 4,
                 was_ended = False\<rparr>,
      MCFunction \<lparr>name = ''push'', parent = Some 3, description = [], tags = {},
                   commands = [], continuation = None\<rparr>]"



text \<open>Class \<open>A\<close> inherits from class \<open>B\<close>; the symbol \<open>s\<close> is defined on \<open>B\<close> only.\<close>

definition class_heap :: heap where
  "class_heap =
     [Class \<lparr>name = ''B'', parent = None, children = [(''s'', 2)], inherits_from = []\<rparr>,
      Class \<lparr>name = ''A'', parent = None, children = [], inherits_from = [0]\<rparr>,
      MCFunction \<lparr>name = ''s'', parent = Some 0, description = [], tags = {},
                   commands = [], continuation = None\<rparr>]"

text \<open>
  The end-to-end scenario: a root namespace \<open>ns\<close>, a Function \<open>f\<close> without parameters, one
  command, a conditional, one command in the then-branch, the then-branch ended, \<open>f\<close>
  ended; \<open>scenario_heap\<close> is the heap this leaves, \<open>scenario_export\<close> the export from the
  root.
\<close>

definition scenario :: "error + heap" where
  "scenario =
     (case new_namespace [] ''ns'' of
        (ns, h1) \<Rightarrow>
          (case create_function h1 ns ''f'' [] [] {} of
             Inl e \<Rightarrow> Inl e
           | Inr (f, h2) \<Rightarrow>
               (case add_command h2 f [LiteralCommand ''say hi'' []] of
                  Inl e \<Rightarrow> Inl e
                | Inr h3 \<Rightarrow>
                    (case c_if h3 f (Condition ''entity @s'' []) of
                       Inl e \<Rightarrow> Inl e
                     | Inr (then_branch, h4) \<Rightarrow>
                         (case add_command h4 then_branch [LiteralCommand ''say then'' []] of
                            Inl e \<Rightarrow> Inl e
                          | Inr h5 \<Rightarrow>
                              (case end_fn h5 then_branch of
                                 Inl e \<Rightarrow> Inl e
                               | Inr h6 \<Rightarrow> end_fn h6 f))))))"

definition scenario_heap :: heap where
  "scenario_heap =
     [Namespace \<lparr>name = ''ns'', parent = None, children = [(''f'', 1)]\<rparr>,
      Function \<lparr>name = ''f'', parent = Some 0,
                 children = [(''f'', 2), (''if1'', 3), (''if-continue2'', 5)], args = [],
                 continuation_f = None, entry_point = 2, current_mcfunction = 5,
                 was_ended = True\<rparr>,
      MCFunction \<lparr>name = ''f'', parent = Some 1, description = [], tags = {},
                   commands =
                     [LiteralCommand ''say hi'' [],
                      ComposedCommand
                        [LiteralCommand ''execute if entity @s run'' [], FunctionCall 4],
                      ComposedCommand
                        [LiteralCommand ''execute unless entity @s run'' [], FunctionCall 5]],
                   continuation = None\<rparr>,
      Function \<lparr>name = ''if1'', parent = Some 1, children = [(''if1'', 4)], args = [],
                 continuation_f = Some 5, entry_point = 4, current_mcfunction = 4,
                 was_ended = True\<rparr>,
      MCFunction \<lparr>name = ''if1'', parent = Some 3, description = [], tags = {},
                   commands = [LiteralCommand ''say then'' []], continuation = Some 5\<rparr>,
      MCFunction \<lparr>name = ''if-continue2'', parent = Some 1, description = [], tags = {},
                   commands = [], continuation = None\<rparr>]"

definition scenario_export :: "(error + (string list \<times> addr) list) option" where
  "scenario_export =
     (case scenario of Inl e \<Rightarrow> Some (Inl e) | Inr h \<Rightarrow> get_all_mcfunctions 7 h 0)"

section \<open>Basic facts about the store\<close>

lemma lookup_Some_iff: "lookup h a = Some ob \<longleftrightarrow> a < length h \<and> h ! a = ob"
  by (auto simp: lookup_def)

lemma lookup_update: "lookup (h[a := x]) b = (if b = a \<and> a < length h then Some x else lookup h b)"
  by (auto simp: lookup_def)

lemma obj_name_set_parent [simp]: "obj_name (set_parent p ob) = obj_name ob"
  by (cases ob) simp_all

lemma obj_name_set_children [simp]: "obj_name (set_children cs ob) = obj_name ob"
  by (cases ob) simp_all

lemma obj_parent_set_parent [simp]: "obj_parent (set_parent p ob) = p"
  by (cases ob) simp_all

lemma obj_parent_set_children [simp]: "obj_parent (set_children cs ob) = obj_parent ob"
  by (cases ob) simp_all

lemma obj_children_set_parent [simp]: "obj_children (set_parent p ob) = obj_children ob"
  by (cases ob) simp_all

lemma obj_children_set_children [simp]:
  "obj_children (set_children cs ob) = (if obj_children ob = None then None else Some cs)"
  by (cases ob) simp_all

lemma closed_parent:
  "closed h \<Longrightarrow> a < length h \<Longrightarrow> obj_parent (h ! a) = Some p \<Longrightarrow> p < length h"
  using nth_mem [of a h] by (fastforce simp: closed_def list_all_iff simp del: nth_mem)

lemma closed_children:
  "closed h \<Longrightarrow> a < length h \<Longrightarrow> obj_children (h ! a) = Some cs \<Longrightarrow> c \<in> set (map snd cs)
     \<Longrightarrow> c < length h"
  using nth_mem [of a h] by (fastforce simp: closed_def list_all_iff simp del: nth_mem)

lemma path_append:
  "closed h \<Longrightarrow> a < length h \<Longrightarrow> path k (h @ xs) a = path k h a"
proof (induction k arbitrary: a)
  case 0
  then show ?case by simp
next
  case (Suc k)
  show ?case
  proof (cases "obj_parent (h ! a)")
    case None
    with Suc.prems show ?thesis by (simp add: lookup_def nth_append)
  next
    case (Some p)
    with Suc.prems have "p < length h" by (auto dest: closed_parent)
    with Suc.IH [OF Suc.prems(1) this] Some Suc.prems show ?thesis
      by (simp add: lookup_def nth_append)
  qed
qed

lemma export_append:
  "closed h \<Longrightarrow> a < length h \<Longrightarrow> get_all_mcfunctions k (h @ xs) a = get_all_mcfunctions k h a"
  "closed h \<Longrightarrow> \<forall>c\<in>set cs. c < length h
     \<Longrightarrow> collect_children k (h @ xs) cs acc = collect_children k h cs acc"
proof (induction k h a and k h cs acc rule: get_all_mcfunctions_collect_children.induct)
  case (1 h self)
  then show ?case by simp
next
  case (2 n h self)
  show ?case
  proof (cases "obj_children (h ! self)")
    case None
    with 2 show ?thesis by (simp add: lookup_def nth_append)
  next
    case (Some chs)
    with "2.prems" have "\<forall>c\<in>set (map snd chs). c < length h"
      using closed_children [of h self chs] by auto
    with "2.IH" [of "h ! self" chs] "2.prems" Some show ?thesis
      by (simp add: lookup_def nth_append)
  qed
next
  case (3 n h mcfunctions)
  then show ?case by simp
next
  case (4 n h child rest mcfunctions)
  from "4.prems" have c: "child < length h" and r: "\<forall>c\<in>set rest. c < length h" by auto
  have l: "lookup (h @ xs) child = lookup h child" "lookup h child = Some (h ! child)"
    using c by (simp_all add: lookup_def nth_append)
  have p: "path n (h @ xs) child = path n h child"
    using "4.prems"(1) c by (rule path_append)
  show ?case
  proof (cases "h ! child")
    case (MCFunction m)
    with 4 l p r show ?thesis by (simp split: option.splits sum.splits)
  next
    case (FunctionTag t)
    with 4 l p r show ?thesis by simp
  next
    case (Namespace x)
    with 4 l p r c show ?thesis by (simp split: option.splits sum.splits)
  next
    case (Function x)
    with 4 l p r c show ?thesis by (simp split: option.splits sum.splits)
  next
    case (Template x)
    with 4 l p r c show ?thesis by (simp split: option.splits sum.splits)
  next
    case (Class x)
    with 4 l p r c show ?thesis by (simp split: option.splits sum.splits)
  qed
qed


lemma add_fresh:
  assumes "lookup h n = Some ob" "obj_children ob = Some chs"
  shows "add (h @ [x]) n [length h]
         = Inr (h[n := set_children (AList.update (obj_name x) (length h) chs) ob]
                @ [set_parent (Some n) x])"
  using assms unfolding lookup_Some_iff
  by (simp add: lookup_def nth_append Let_def list_update_append)

lemma namespace_get_fresh:
  assumes "lookup h n = Some ob" "obj_children ob = Some chs"
  shows "namespace_get (h[n := set_children (AList.update s c chs) ob] @ xs) n s = Inr c"
  using assms unfolding lookup_Some_iff
  by (simp add: namespace_get_def lookup_def nth_append update_conv')

section \<open>Facts about the Function compiler\<close>

lemma str_nat_small: "n < 10 \<Longrightarrow> str_nat n = [digit_char n]"
  by (simp add: str_nat.simps)

lemma lookup_SomeD: "lookup h a = Some ob \<Longrightarrow> a < length h \<and> h ! a = ob"
  by (simp add: lookup_Some_iff)

lemma add_commands_appends:
  assumes "lookup h self = Some (Function f)"
    and "lookup h (current_mcfunction f) = Some (MCFunction m)"
  shows "add_commands h self cs
         = Inr (h[current_mcfunction f := MCFunction (m\<lparr>commands := commands m @ cs\<rparr>)])"
  using assms
proof (induction cs arbitrary: h m)
  case Nil
  then have "h[current_mcfunction f := MCFunction m] = h"
    by (auto dest!: lookup_SomeD simp: list_update_same_conv)
  then show ?case by simp
next
  case (Cons c cs)
  let ?cur = "current_mcfunction f"
  let ?h1 = "h[?cur := MCFunction (m\<lparr>commands := commands m @ [c]\<rparr>)]"
  from Cons.prems have ne: "self \<noteq> ?cur" by auto
  from Cons.prems have step: "mcfunction_add_command h ?cur c = Inr ?h1"
    by (simp add: mcfunction_add_command_def)
  from Cons.prems ne have a: "lookup ?h1 self = Some (Function f)"
    by (simp add: lookup_update)
  from Cons.prems have b: "lookup ?h1 ?cur = Some (MCFunction (m\<lparr>commands := commands m @ [c]\<rparr>))"
    by (simp add: lookup_update lookup_Some_iff)
  from Cons.IH [OF a b] Cons.prems step show ?case by simp
qed

lemma add_command_appends:
  assumes "lookup h self = Some (Function f)" and "\<not> was_ended f"
    and "lookup h (current_mcfunction f) = Some (MCFunction m)"
  shows "add_command h self cs
         = Inr (h[current_mcfunction f := MCFunction (m\<lparr>commands := commands m @ cs\<rparr>)])"
  using assms by (simp add: add_command_def add_commands_appends)

lemma end_fn_result:
  assumes "lookup h self = Some (Function f)" and "\<not> was_ended f"
    and "lookup h (current_mcfunction f) = Some (MCFunction m)"
  shows "end_fn h self
         = Inr (h[current_mcfunction f := MCFunction (m\<lparr>continuation := continuation_f f\<rparr>),
                  self := Function (f\<lparr>was_ended := True\<rparr>)])"
  using assms by (simp add: end_fn_def Let_def)

lemma c_if_result:
  assumes f: "lookup h self = Some (Function f)" and ne: "\<not> was_ended f"
    and m: "lookup h (current_mcfunction f) = Some (MCFunction m)"
  defines "L \<equiv> length h"
  defines "name1 \<equiv> ''if'' @ str_nat (length (children f))"
  defines "children1 \<equiv> AList.update name1 L (children f)"
  defines "name2 \<equiv> ''if-continue'' @ str_nat (length children1)"
  defines "children2 \<equiv> AList.update name2 (Suc (Suc L)) children1"
  shows "c_if h self cond =
     Inr (L,
       h[current_mcfunction f :=
           MCFunction (m\<lparr>commands := commands m @ if_commands cond (Suc L) (Suc (Suc L))\<rparr>),
         self := Function (f\<lparr>children := children2, current_mcfunction := Suc (Suc L)\<rparr>)]
       @ [Function \<lparr>name = name1, parent = Some self, children = [(name1, Suc L)], args = [],
                    continuation_f = Some (Suc (Suc L)), entry_point = Suc L,
                    current_mcfunction = Suc L, was_ended = False\<rparr>,
          MCFunction \<lparr>name = name1, parent = Some L, description = [], tags = {},
                      commands = [], continuation = None\<rparr>,
          MCFunction \<lparr>name = name2, parent = Some self, description = [], tags = {},
                      commands = [], continuation = None\<rparr>])"
proof -
  let ?cur = "current_mcfunction f"
  from f m have lt: "self < L" "?cur < L" and at: "h ! self = Function f" "h ! ?cur = MCFunction m"
    by (auto simp: L_def dest: lookup_SomeD)
  from f m have neq: "self \<noteq> ?cur" by auto
  let ?I = "Function \<lparr>name = name1, parent = Some self, children = [(name1, Suc L)], args = [],
                    continuation_f = None, entry_point = Suc L,
                    current_mcfunction = Suc L, was_ended = False\<rparr>"
  let ?E = "MCFunction \<lparr>name = name1, parent = Some L, description = [], tags = {},
                      commands = [], continuation = None\<rparr>"
  let ?C = "MCFunction \<lparr>name = name2, parent = Some self, description = [], tags = {},
                      commands = [], continuation = None\<rparr>"
  let ?h1 = "h[self := Function (f\<lparr>children := children1\<rparr>)] @ [?I, ?E]"
  let ?h2 = "h[self := Function (f\<lparr>children := children2\<rparr>)] @ [?I, ?E, ?C]"
  have s1: "create_function h self name1 [] [] {} = Inr (L, ?h1)"
    using lt at
    by (simp add: create_function_def new_function_def Let_def lookup_def nth_append
          list_update_append L_def children1_def)
  have l1: "lookup ?h1 self = Some (Function (f\<lparr>children := children1\<rparr>))"
    using lt by (simp add: lookup_def nth_append L_def)
  have s2: "create_mcfunction ?h1 self name2 {} [] = Inr (Suc (Suc L), ?h2)"
    using lt at
    by (simp add: create_mcfunction_def new_mcfunction_def Let_def lookup_def nth_append
          list_update_append L_def children2_def)
  have l2: "lookup ?h2 L = Some ?I"
    by (simp add: lookup_def nth_append L_def)
  have l2s: "lookup ?h2 self = Some (Function (f\<lparr>children := children2\<rparr>))"
    using lt by (simp add: lookup_def nth_append L_def)
  have l2c: "lookup ?h2 (current_mcfunction (f\<lparr>children := children2\<rparr>)) = Some (MCFunction m)"
    using lt at neq by (simp add: lookup_def nth_append L_def)
  let ?h3 = "?h2[?cur := MCFunction (m\<lparr>commands := commands m @ if_commands cond (Suc L) (Suc (Suc L))\<rparr>)]"
  have s3: "add_command ?h2 self (if_commands cond (Suc L) (Suc (Suc L))) = Inr ?h3"
    using add_command_appends [OF l2s _ l2c] ne by simp
  have l3: "lookup ?h3 L = Some ?I"
    using lt by (simp add: lookup_def nth_append L_def)
  let ?I' = "Function \<lparr>name = name1, parent = Some self, children = [(name1, Suc L)], args = [],
                    continuation_f = Some (Suc (Suc L)), entry_point = Suc L,
                    current_mcfunction = Suc L, was_ended = False\<rparr>"
  let ?h4 = "?h3[L := ?I']"
  have l4: "lookup ?h4 self = Some (Function (f\<lparr>children := children2\<rparr>))"
    using lt neq by (simp add: lookup_def nth_append L_def)
  have fin: "?h4[self := Function (f\<lparr>children := children2, current_mcfunction := Suc (Suc L)\<rparr>)]
      = h[?cur := MCFunction (m\<lparr>commands := commands m @ if_commands cond (Suc L) (Suc (Suc L))\<rparr>),
          self := Function (f\<lparr>children := children2, current_mcfunction := Suc (Suc L)\<rparr>)]
        @ [?I', ?E, ?C]"
    using lt neq by (simp add: list_update_append L_def list_update_swap [of self])
  obtain string u_strings where ts: "to_str cond = (string, u_strings)"
    by (cases "to_str cond")
  have ic: "if_commands cond (Suc L) (Suc (Suc L)) =
          [ComposedCommand [LiteralCommand (''execute if '' @ string @ '' run'') u_strings,
                            FunctionCall (Suc L)],
           ComposedCommand [LiteralCommand (''execute unless '' @ string @ '' run'') u_strings,
                            FunctionCall (Suc (Suc L))]]"
    by (simp add: if_commands_def ts)
  show ?thesis
    unfolding c_if_def
    by (simp add: f s1 l1 s2 l2 ts s3 [unfolded ic] l3 [unfolded ic] l4 [unfolded ic]
          fin [unfolded ic] ic
          Let_def name1_def [symmetric] name2_def [symmetric]
          del: append.simps)
qed

lemma append_to_cursor:
  assumes "lookup h self = Some (Function f)"
    and "lookup h (current_mcfunction f) = Some (MCFunction m)"
  shows "lookup (h[current_mcfunction f := MCFunction m']) self = Some (Function f)"
    and "lookup (h[current_mcfunction f := MCFunction m']) (current_mcfunction f)
         = Some (MCFunction m')"
    and "lookup h x = Some (Function g)
         \<Longrightarrow> lookup (h[current_mcfunction f := MCFunction m']) x = Some (Function g)"
  using assms by (auto simp: lookup_update dest: lookup_SomeD)

lemma call_no_varargs:
  assumes f: "lookup h self = Some (Function f)" and ne: "\<not> was_ended f"
    and m: "lookup h (current_mcfunction f) = Some (MCFunction m)"
    and g: "lookup h function = Some (Function g)"
  shows "c_call_function push h self function arg []
         = Inr (h[current_mcfunction f := MCFunction (m\<lparr>commands := commands m
                    @ Comment (call_comment arg []) [PathString function]
                      # set_arg arg @ [FunctionCall (entry_point g)]\<rparr>)])"
proof -
  let ?cur = "current_mcfunction f"
  let ?c = "Comment (call_comment arg []) [PathString function]"
  let ?m1 = "m\<lparr>commands := commands m @ [?c]\<rparr>"
  let ?h1 = "h[?cur := MCFunction ?m1]"
  have s1: "comment h self (call_comment arg []) [PathString function] = Inr ?h1"
    unfolding comment_def by (rule add_command_appends [OF f ne m])
  note l1 = append_to_cursor [OF f m, where m' = "?m1"]
  let ?m2 = "m\<lparr>commands := commands m @ ?c # set_arg arg\<rparr>"
  let ?h2 = "h[?cur := MCFunction ?m2]"
  have s2: "(case arg of None \<Rightarrow> Inr ?h1 | Some a \<Rightarrow> add_command ?h1 self [VarToVar a STD_ARG])
            = Inr ?h2"
    using add_command_appends [OF l1(1) ne l1(2)]
    by (cases arg) (simp_all add: set_arg_def)
  note l2 = append_to_cursor [OF f m, where m' = "?m2"]
  have s3: "add_command ?h2 self [FunctionCall (entry_point g)]
            = Inr (h[?cur := MCFunction (m\<lparr>commands := commands m @ ?c # set_arg arg
                                              @ [FunctionCall (entry_point g)]\<rparr>)])"
    using add_command_appends [OF l2(1) ne l2(2)] by simp
  show ?thesis
    by (simp add: c_call_function.simps [of push h self "function" arg "[]"] s1 s2 l2(3) [OF g] s3)
qed

lemma push_varargs_result:
  assumes f: "lookup h self = Some (Function f)" and ne: "\<not> was_ended f"
    and m: "lookup h (current_mcfunction f) = Some (MCFunction m)"
    and p: "lookup h push = Some (Function p)"
  shows "push_varargs push h self vs
         = Inr (h[current_mcfunction f := MCFunction (m\<lparr>commands := commands m
                    @ concat (map (push_call push (entry_point p)) vs)\<rparr>)])"
  using f m p
proof (induction vs arbitrary: h m)
  case Nil
  then have "h[current_mcfunction f := MCFunction m] = h"
    by (auto dest!: lookup_SomeD simp: list_update_same_conv)
  then show ?case by simp
next
  case (Cons v vs)
  let ?cur = "current_mcfunction f"
  let ?m1 = "m\<lparr>commands := commands m @ push_call push (entry_point p) v\<rparr>"
  have s1: "c_call_function push h self push (Some v) [] = Inr (h[?cur := MCFunction ?m1])"
    using call_no_varargs [OF Cons.prems(1) ne Cons.prems(2) Cons.prems(3), of push "Some v"]
    by (simp add: push_call_def set_arg_def)
  note l1 = append_to_cursor [OF Cons.prems(1,2), where m' = "?m1"]
  from Cons.IH [OF l1(1) l1(2) l1(3) [OF Cons.prems(3)]] s1 show ?case by simp
qed

section \<open>Facts about Template and Class\<close>





lemma hierarchy_Suc: "hierarchy n h c \<Longrightarrow> hierarchy (Suc n) h c"
proof (induction n arbitrary: c)
  case 0
  then show ?case by simp
next
  case (Suc n)
  show ?case
  proof (cases "lookup h c")
    case None
    with Suc.prems show ?thesis by simp
  next
    case (Some ob)
    show ?thesis
    proof (cases ob)
      case (Class k)
      with Some Suc.prems have "list_all (hierarchy n h) (inherits_from k)" by simp
      then have "list_all (hierarchy (Suc n) h) (inherits_from k)"
        using Suc.IH by (auto simp: list_all_iff simp del: hierarchy.simps)
      with Some Class show ?thesis by (simp del: hierarchy.simps(2)) (simp add: Some Class)
    qed (use Some Suc.prems in auto)
  qed
qed

lemma hierarchy_mono: "hierarchy n h c \<Longrightarrow> n \<le> m \<Longrightarrow> hierarchy m h c"
  by (induction m) (auto simp: le_Suc_eq dest: hierarchy_Suc simp del: hierarchy.simps)

lemma namespace_get_hit_or_miss:
  "lookup h c = Some ob \<Longrightarrow> obj_children ob \<noteq> None \<Longrightarrow> hit_or_miss s (namespace_get h c s)"
  by (auto simp: namespace_get_def hit_or_miss_def split: option.splits)

lemma get_inherited_first:
  assumes "\<forall>p\<in>set ps. \<exists>r. get n h p s = Some r \<and> hit_or_miss s r"
  shows "(\<exists>i<length ps. (\<forall>j<i. get n h (ps ! j) s = Some (Inl (UnknownSymbol s)))
            \<and> (\<exists>x. get n h (ps ! i) s = Some (Inr x)
                   \<and> get_inherited n h ps s e = Some (Inr x)))
       \<or> ((\<forall>p\<in>set ps. get n h p s = Some (Inl (UnknownSymbol s)))
            \<and> get_inherited n h ps s e = Some (Inl e))"
  using assms
proof (induction ps)
  case Nil
  then show ?case by simp
next
  case (Cons p ps)
  from Cons.prems obtain r where r: "get n h p s = Some r" "hit_or_miss s r" by auto
  show ?case
  proof (cases r)
    case (Inr x)
    with r have "get n h ((p # ps) ! 0) s = Some (Inr x)"
      "get_inherited n h (p # ps) s e = Some (Inr x)" by simp_all
    then show ?thesis by (intro disjI1 exI [of _ 0]) simp
  next
    case (Inl e')
    with r have e': "get n h p s = Some (Inl (UnknownSymbol s))"
      by (simp add: hit_or_miss_def)
    then have step: "get_inherited n h (p # ps) s e = get_inherited n h ps s e" by simp
    from Cons.prems have "\<forall>p\<in>set ps. \<exists>r. get n h p s = Some r \<and> hit_or_miss s r" by simp
    from Cons.IH [OF this] show ?thesis
    proof
      assume "\<exists>i<length ps. (\<forall>j<i. get n h (ps ! j) s = Some (Inl (UnknownSymbol s)))
            \<and> (\<exists>x. get n h (ps ! i) s = Some (Inr x)
                   \<and> get_inherited n h ps s e = Some (Inr x))"
      then obtain i x where i: "i < length ps"
        "\<forall>j<i. get n h (ps ! j) s = Some (Inl (UnknownSymbol s))"
        "get n h (ps ! i) s = Some (Inr x)" "get_inherited n h ps s e = Some (Inr x)"
        by blast
      have "\<forall>j<Suc i. get n h ((p # ps) ! j) s = Some (Inl (UnknownSymbol s))"
        using i(2) e' by (auto simp: nth_Cons')
      with i step show ?thesis
        by (intro disjI1 exI [of _ "Suc i"]) simp
    next
      assume "(\<forall>p\<in>set ps. get n h p s = Some (Inl (UnknownSymbol s)))
            \<and> get_inherited n h ps s e = Some (Inl e)"
      with e' step show ?thesis by simp
    qed
  qed
qed

lemma get_total:
  "hierarchy n h c \<Longrightarrow> \<exists>r. get n h c s = Some r \<and> hit_or_miss s r"
proof (induction n arbitrary: c)
  case 0
  then show ?case by simp
next
  case (Suc n)
  from Suc.prems obtain ob where ob: "lookup h c = Some ob"
    by (auto split: option.splits)
  show ?case
  proof (cases ob)
    case (Class k)
    with ob Suc.prems have ps: "\<forall>p\<in>set (inherits_from k). hierarchy n h p"
      by (simp add: list_all_iff)
    then have all: "\<forall>p\<in>set (inherits_from k). \<exists>r. get n h p s = Some r \<and> hit_or_miss s r"
      using Suc.IH by blast
    show ?thesis
    proof (cases "map_of (children k) s")
      case (Some x)
      with ob Class show ?thesis by (simp add: namespace_get_def hit_or_miss_def)
    next
      case None
      with ob Class have "get (Suc n) h c s
          = get_inherited n h (inherits_from k) s (UnknownSymbol s)"
        by (simp add: namespace_get_def)
      with get_inherited_first [OF all, of "UnknownSymbol s"] show ?thesis
        by (auto simp: hit_or_miss_def)
    qed
  next
    case (Namespace x)
    with ob show ?thesis using namespace_get_hit_or_miss [OF ob, of s] by simp
  next
    case (Function x)
    with ob show ?thesis using namespace_get_hit_or_miss [OF ob, of s] by simp
  next
    case (Template x)
    with ob show ?thesis using namespace_get_hit_or_miss [OF ob, of s] by simp
  next
    case (FunctionTag x)
    with ob Suc.prems show ?thesis by simp
  next
    case (MCFunction x)
    with ob Suc.prems show ?thesis by simp
  qed
qed

section \<open>Facts about paths and the export pass\<close>

lemma path_Suc: "path k h a = Some r \<Longrightarrow> path (Suc k) h a = Some r"
proof (induction k arbitrary: a r)
  case 0
  then show ?case by simp
next
  case (Suc k)
  show ?case
  proof (cases "lookup h a")
    case None
    with Suc.prems show ?thesis by simp
  next
    case (Some ob)
    show ?thesis
    proof (cases "obj_parent ob")
      case None
      with Some Suc.prems show ?thesis by simp
    next
      case (Some p)
      with \<open>lookup h a = Some ob\<close> Suc.prems obtain r' where r': "path k h p = Some r'"
        by (auto split: option.splits)
      have unf: "path (Suc j) h a = (case path j h p of None \<Rightarrow> None
                  | Some (Inl e) \<Rightarrow> Some (Inl e)
                  | Some (Inr ps) \<Rightarrow> Some (Inr (ps @ [obj_name ob])))" for j
        using Some \<open>lookup h a = Some ob\<close> by simp
      from Suc.IH [OF r'] r' Suc.prems show ?thesis
        unfolding unf by simp
    qed
  qed
qed

lemma path_mono: "path k h a = Some r \<Longrightarrow> k \<le> k' \<Longrightarrow> path k' h a = Some r"
  by (induction k') (auto simp: le_Suc_eq dest: path_Suc simp del: path.simps)

lemma path_unique: "path k h a = Some r \<Longrightarrow> path k' h a = Some r' \<Longrightarrow> r = r'"
  using path_mono [of k h a r "max k k'"] path_mono [of k' h a r' "max k k'"] by simp

lemma path_child:
  assumes "lookup h c = Some co" and "obj_parent co = Some a" and "path k h a = Some (Inr pa)"
  shows "path (Suc k) h c = Some (Inr (pa @ [obj_name co]))"
  using assms by simp

lemma collect_children_Cons:
  "collect_children n h (child # rest) acc =
     (case lookup h child of
        None \<Rightarrow> Some (Inl BadReference)
      | Some ob \<Rightarrow>
          (if \<exists>m. ob = MCFunction m
           then (case path n h child of
                   None \<Rightarrow> None
                 | Some (Inl e) \<Rightarrow> Some (Inl e)
                 | Some (Inr p) \<Rightarrow> collect_children n h rest (AList.update p child acc))
           else if obj_children ob = None then collect_children n h rest acc
           else if unended_obj ob
           then (case path n h child of
                   None \<Rightarrow> None
                 | Some (Inl e) \<Rightarrow> Some (Inl e)
                 | Some (Inr p) \<Rightarrow> Some (Inl (UnfinishedScope p)))
           else (case get_all_mcfunctions n h child of
                   None \<Rightarrow> None
                 | Some (Inl e) \<Rightarrow> Some (Inl e)
                 | Some (Inr d) \<Rightarrow> collect_children n h rest (dict_ior acc d))))"
proof (cases "lookup h child")
  case None
  then show ?thesis by simp
next
  case (Some ob)
  then show ?thesis by (cases ob) (simp_all add: unended_obj_def)
qed

lemma collect_children_Suc_aux:
  assumes "\<And>a r. get_all_mcfunctions d h a = Some r \<Longrightarrow> get_all_mcfunctions (Suc d) h a = Some r"
  shows "collect_children d h cs acc = Some r \<Longrightarrow> collect_children (Suc d) h cs acc = Some r"
proof (induction cs arbitrary: acc)
  case Nil
  then show ?case by simp
next
  case (Cons c cs)
  note unf = collect_children_Cons [of d h c cs] collect_children_Cons [of "Suc d" h c cs]
  show ?case
  proof (cases "lookup h c")
    case None
    with Cons.prems show ?thesis unfolding unf by simp
  next
    case (Some ob)
    consider (unit) "\<exists>m. ob = MCFunction m"
      | (tag) "\<not> (\<exists>m. ob = MCFunction m)" "obj_children ob = None"
      | (open_fn) "\<not> (\<exists>m. ob = MCFunction m)" "obj_children ob \<noteq> None" "unended_obj ob"
      | (ns) "\<not> (\<exists>m. ob = MCFunction m)" "obj_children ob \<noteq> None" "\<not> unended_obj ob"
      by blast
    then show ?thesis
    proof cases
      case unit
      with Some Cons.prems obtain x where x: "path d h c = Some x"
        unfolding unf by (auto split: option.splits)
      from path_Suc [OF x] x unit Some Cons.prems Cons.IH show ?thesis
        unfolding unf by (auto split: sum.splits)
    next
      case tag
      with Some Cons.prems Cons.IH show ?thesis unfolding unf by auto
    next
      case open_fn
      with Some Cons.prems obtain x where x: "path d h c = Some x"
        unfolding unf by (auto split: option.splits)
      from path_Suc [OF x] x open_fn Some Cons.prems show ?thesis
        unfolding unf by (auto split: sum.splits)
    next
      case ns
      with Some Cons.prems obtain x where x: "get_all_mcfunctions d h c = Some x"
        unfolding unf by (auto split: option.splits)
      from assms [OF x] x ns Some Cons.prems Cons.IH show ?thesis
        unfolding unf by (auto split: sum.splits)
    qed
  qed
qed

lemma get_all_mcfunctions_Suc:
  "get_all_mcfunctions d h a = Some r \<Longrightarrow> get_all_mcfunctions (Suc d) h a = Some r"
proof (induction d arbitrary: a r)
  case 0
  then show ?case by simp
next
  case (Suc d)
  have step: "collect_children d h cs acc = Some r \<Longrightarrow> collect_children (Suc d) h cs acc = Some r"
    for cs acc r
    using Suc.IH by (rule collect_children_Suc_aux)
  from Suc.prems show ?case
    unfolding get_all_mcfunctions.simps(2) [of d] get_all_mcfunctions.simps(2) [of "Suc d"]
    by (auto split: option.splits intro: step)
qed

lemma collect_children_Suc:
  "collect_children d h cs acc = Some r \<Longrightarrow> collect_children (Suc d) h cs acc = Some r"
  using get_all_mcfunctions_Suc by (rule collect_children_Suc_aux)

lemma get_all_mcfunctions_mono:
  "get_all_mcfunctions d h a = Some r \<Longrightarrow> d \<le> d' \<Longrightarrow> get_all_mcfunctions d' h a = Some r"
  by (induction d') (auto simp: le_Suc_eq dest: get_all_mcfunctions_Suc
        simp del: get_all_mcfunctions.simps)

lemma collect_children_mono:
  "collect_children d h cs acc = Some r \<Longrightarrow> d \<le> d' \<Longrightarrow> collect_children d' h cs acc = Some r"
  by (induction d') (auto simp: le_Suc_eq dest: collect_children_Suc
        simp del: collect_children.simps)

lemma units_in_append: "units_in h (xs @ ys) = units_in h xs \<union> units_in h ys"
  by (auto simp: units_in_def)

lemma map_of_dict_ior:
  "distinct (map fst d) \<Longrightarrow>
   map_of (dict_ior acc d) p = (case map_of d p of Some v \<Rightarrow> Some v | None \<Rightarrow> map_of acc p)"
proof (induction d arbitrary: acc)
  case Nil
  then show ?case by (simp add: dict_ior_def)
next
  case (Cons x d)
  obtain k v where x: "x = (k, v)" by (cases x)
  from Cons.prems x have k: "map_of d k = None" and d: "distinct (map fst d)"
    by (auto simp: map_of_eq_None_iff)
  have "dict_ior acc (x # d) = dict_ior (AList.update k v acc) d"
    by (simp add: dict_ior_def x)
  with Cons.IH [OF d, of "AList.update k v acc"] k x show ?case
    by (auto simp: update_conv' split: option.splits)
qed

lemma distinct_dict_ior:
  "distinct (map fst acc) \<Longrightarrow> distinct (map fst (dict_ior acc d))"
proof (induction d arbitrary: acc)
  case Nil
  then show ?case by (simp add: dict_ior_def)
next
  case (Cons x d)
  obtain k v where x: "x = (k, v)" by (cases x)
  have "dict_ior acc (x # d) = dict_ior (AList.update k v acc) d"
    by (simp add: dict_ior_def x)
  with Cons.IH [of "AList.update k v acc"] Cons.prems show ?case
    by (simp add: distinct_update)
qed

lemma collect_children_distinct:
  "distinct (map fst acc) \<Longrightarrow> collect_children d h cs acc = Some (Inr m)
     \<Longrightarrow> distinct (map fst m)"
proof (induction cs arbitrary: acc)
  case Nil
  then show ?case by simp
next
  case (Cons c cs)
  from Cons.prems(2) show ?case
    unfolding collect_children_Cons [of d h c cs]
    by (auto split: option.splits sum.splits if_splits
             intro: Cons.IH [OF distinct_update [OF Cons.prems(1)]]
                    Cons.IH [OF distinct_dict_ior [OF Cons.prems(1)]]
                    Cons.IH [OF Cons.prems(1)])
qed

lemma get_all_mcfunctions_distinct:
  "get_all_mcfunctions d h a = Some (Inr m) \<Longrightarrow> distinct (map fst m)"
proof (cases d)
  case 0
  then show "get_all_mcfunctions d h a = Some (Inr m) \<Longrightarrow> distinct (map fst m)" by simp
next
  case (Suc d')
  assume "get_all_mcfunctions d h a = Some (Inr m)"
  with Suc obtain cs where "collect_children d' h cs [] = Some (Inr m)"
    by (auto split: option.splits)
  from collect_children_distinct [OF _ this] show "distinct (map fst m)" by simp
qed

lemma wf_tree_child:
  assumes "wf_tree (Suc n) h a" and "lookup h a = Some ob" and "obj_children ob = Some chs"
    and "(kc, c) \<in> set chs"
  shows "wf_tree n h c" and "\<exists>co. lookup h c = Some co \<and> obj_name co = kc \<and> obj_parent co = Some a"
  using assms by (auto simp: list_all_iff split: option.splits)

lemma wf_tree_distinct:
  assumes "wf_tree (Suc n) h a" and "lookup h a = Some ob" and "obj_children ob = Some chs"
  shows "distinct (map fst chs)"
  using assms by simp

lemma descendants_leaf:
  "lookup h c = Some co \<Longrightarrow> obj_children co = None \<Longrightarrow> descendants n h c = []"
  by (cases n) simp_all

lemma subtree_path:
  "wf_tree n h c \<Longrightarrow> path k h c = Some (Inr pc) \<Longrightarrow> u \<in> set (c # descendants n h c)
     \<Longrightarrow> \<exists>q d. path d h u = Some (Inr (pc @ q))"
proof (induction n arbitrary: c pc k)
  case 0
  then show ?case by simp
next
  case (Suc n)
  show ?case
  proof (cases "u = c")
    case True
    with Suc.prems(2) show ?thesis by (intro exI [of _ "[]"] exI [of _ k]) simp
  next
    case False
    with Suc.prems(3) have u: "u \<in> set (descendants (Suc n) h c)" by simp
    obtain ob where ob1: "lookup h c = Some ob"
      using u by (cases "lookup h c") auto
    obtain chs where ob2: "obj_children ob = Some chs"
      using u ob1 by (cases "obj_children ob") auto
    note ob = ob1 ob2
    from u ob have "u \<in> set (concat (map (\<lambda>c. c # descendants n h c) (map snd chs)))"
      by simp
    then obtain kc c' where c': "(kc, c') \<in> set chs" "u \<in> set (c' # descendants n h c')"
      by auto
    from wf_tree_child [OF Suc.prems(1) ob c'(1)] obtain co where
      w: "wf_tree n h c'" and co: "lookup h c' = Some co" "obj_name co = kc"
        "obj_parent co = Some c"
      by blast
    from path_child [OF co(1) co(3) Suc.prems(2)] co(2)
    have "path (Suc k) h c' = Some (Inr (pc @ [kc]))" by simp
    from Suc.IH [OF w this c'(2)] obtain q d where "path d h u = Some (Inr ((pc @ [kc]) @ q))"
      by blast
    then show ?thesis by (intro exI [of _ "kc # q"] exI [of _ d]) simp
  qed
qed

lemma subtree_path_prefix:
  assumes "wf_tree n h c" and "path k h c = Some (Inr pc)" and "u \<in> set (c # descendants n h c)"
    and "path d h u = Some (Inr p)"
  shows "\<exists>q. p = pc @ q"
proof -
  from subtree_path [OF assms(1-3)] obtain q d' where "path d' h u = Some (Inr (pc @ q))"
    by blast
  from path_unique [OF this assms(4)] show ?thesis by auto
qed

lemma combine_maps:
  fixes m acc1 acc :: "'a \<rightharpoonup> 'b"
  assumes "\<forall>p u. (m p = Some u) = ((p, u) \<in> U2 \<or> (acc1 p = Some u \<and> p \<notin> fst ` U2))"
    and "\<forall>p u. (acc1 p = Some u) = ((p, u) \<in> U1 \<or> (acc p = Some u \<and> p \<notin> fst ` U1))"
    and "fst ` U1 \<inter> fst ` U2 = {}"
  shows "\<forall>p u. (m p = Some u) = ((p, u) \<in> U1 \<union> U2 \<or> (acc p = Some u \<and> p \<notin> fst ` (U1 \<union> U2)))"
proof (intro allI)
  fix p u
  from assms(3) have d: "(p, u) \<in> U1 \<Longrightarrow> p \<notin> fst ` U2"
    by (metis disjoint_iff fst_conv image_eqI)
  from assms(1,2) d show "(m p = Some u) = ((p, u) \<in> U1 \<union> U2 \<or> (acc p = Some u \<and> p \<notin> fst ` (U1 \<union> U2)))"
    by (auto simp: image_Un)
qed

lemma units_in_children_prefix:
  assumes pa: "path k h a = Some (Inr pa)"
    and cs: "\<forall>(kc, c)\<in>set cs. wf_tree n h c
               \<and> (\<exists>co. lookup h c = Some co \<and> obj_name co = kc \<and> obj_parent co = Some a)"
    and pu: "(p, u) \<in> units_in h (concat (map (\<lambda>c. c # descendants n h c) (map snd cs)))"
  shows "\<exists>kc q. kc \<in> fst ` set cs \<and> p = pa @ kc # q"
proof -
  from pu obtain kc c d where c: "(kc, c) \<in> set cs" "u \<in> set (c # descendants n h c)"
    and d: "path d h u = Some (Inr p)"
    by (auto simp: units_in_def)
  from cs c(1) obtain co where w: "wf_tree n h c" and co: "lookup h c = Some co"
    "obj_name co = kc" "obj_parent co = Some a" by auto
  from path_child [OF co(1) co(3) pa] co(2)
  have "path (Suc k) h c = Some (Inr (pa @ [kc]))" by simp
  from subtree_path_prefix [OF w this c(2) d] obtain q where "p = (pa @ [kc]) @ q" ..
  with c(1) show ?thesis by (intro exI [of _ kc] exI [of _ q]) force
qed

lemma collect_children_outcome:
  assumes node: "\<And>c ob chs k pc. \<lbrakk>wf_tree n h c; lookup h c = Some ob;
                   obj_children ob = Some chs; path k h c = Some (Inr pc)\<rbrakk>
           \<Longrightarrow> export_outcome h (descendants n h c) Map.empty (\<lambda>d. get_all_mcfunctions d h c)"
    and pa: "path k h a = Some (Inr pa)"
  shows "\<lbrakk>\<forall>(kc, c)\<in>set cs. wf_tree n h c
               \<and> (\<exists>co. lookup h c = Some co \<and> obj_name co = kc \<and> obj_parent co = Some a);
          distinct (map fst cs)\<rbrakk>
     \<Longrightarrow> export_outcome h (concat (map (\<lambda>c. c # descendants n h c) (map snd cs)))
           (map_of acc) (\<lambda>d. collect_children d h (map snd cs) acc)"
proof (induction cs arbitrary: acc)
  case Nil
  show ?case
    unfolding export_outcome_def
    by (simp add: units_in_def)
next
  case (Cons x rest)
  obtain kc c where x: "x = (kc, c)" by (cases x)
  from Cons.prems x obtain co where w: "wf_tree n h c" and co: "lookup h c = Some co"
    "obj_name co = kc" "obj_parent co = Some a" by auto
  from Cons.prems x have rest_ok: "\<forall>(kc, c)\<in>set rest. wf_tree n h c
               \<and> (\<exists>co. lookup h c = Some co \<and> obj_name co = kc \<and> obj_parent co = Some a)"
    and rest_dist: "distinct (map fst rest)" and kc_new: "kc \<notin> fst ` set rest"
    by auto
  let ?pc = "pa @ [kc]"
  have pc: "path (Suc k) h c = Some (Inr ?pc)"
    using path_child [OF co(1) co(3) pa] co(2) by simp
  let ?sub = "c # descendants n h c"
  let ?rest_us = "concat (map (\<lambda>c. c # descendants n h c) (map snd rest))"
  let ?U1 = "units_in h ?sub" and ?U2 = "units_in h ?rest_us"
  let ?run = "\<lambda>d. collect_children d h (c # map snd rest) acc"
  have us: "concat (map (\<lambda>c. c # descendants n h c) (map snd (x # rest))) = ?sub @ ?rest_us"
    by (simp add: x)
  have runs: "(\<lambda>d. collect_children d h (map snd (x # rest)) acc) = ?run"
    by (simp add: x del: collect_children.simps)
  have U: "units_in h (?sub @ ?rest_us) = ?U1 \<union> ?U2" by (rule units_in_append)
  have disj: "fst ` ?U1 \<inter> fst ` ?U2 = {}"
  proof -
    have False if "p \<in> fst ` ?U1" "p \<in> fst ` ?U2" for p
    proof -
      from that obtain u1 u2 where u1: "(p, u1) \<in> ?U1" and u2: "(p, u2) \<in> ?U2" by auto
      from u1 obtain d where "u1 \<in> set ?sub" "path d h u1 = Some (Inr p)"
        by (auto simp: units_in_def)
      from subtree_path_prefix [OF w pc this] obtain q where q: "p = ?pc @ q" ..
      from units_in_children_prefix [OF pa rest_ok u2] obtain kc' q' where
        "kc' \<in> fst ` set rest" "p = pa @ kc' # q'" by blast
      with q kc_new show False by auto
    qed
    then show ?thesis by blast
  qed
  note IH = Cons.IH [OF rest_ok rest_dist]
  have cont: "export_outcome h (?sub @ ?rest_us) (map_of acc) ?run"
    if a1: "\<forall>p u. (map_of acc1 p = Some u)
                 = ((p, u) \<in> ?U1 \<or> (map_of acc p = Some u \<and> p \<notin> fst ` ?U1))"
      and nu: "\<not> (\<exists>c'\<in>set ?sub. unended h c')"
      and run: "\<And>d. d0 \<le> d \<Longrightarrow> ?run d = collect_children d h (map snd rest) acc1"
    for acc1 d0
  proof (cases "\<exists>c'\<in>set ?rest_us. unended h c'")
    case True
    with IH [of acc1] obtain c' p d1 where c': "c' \<in> set ?rest_us" "unended h c'"
      "path d1 h c' = Some (Inr p)"
      "collect_children d1 h (map snd rest) acc1 = Some (Inl (UnfinishedScope p))"
      unfolding export_outcome_def by auto
    let ?D = "max d0 d1"
    from path_mono [OF c'(3), of ?D] have 1: "path ?D h c' = Some (Inr p)" by simp
    from collect_children_mono [OF c'(4), of ?D] run [of ?D]
    have 2: "?run ?D = Some (Inl (UnfinishedScope p))" by simp
    from c'(1,2) 1 2 show ?thesis
      unfolding export_outcome_def by (auto simp del: collect_children.simps)
  next
    case False
    with IH [of acc1] obtain m d1 where m: "collect_children d1 h (map snd rest) acc1 = Some (Inr m)"
      and mc: "\<forall>p u. (map_of m p = Some u)
                 = ((p, u) \<in> ?U2 \<or> (map_of acc1 p = Some u \<and> p \<notin> fst ` ?U2))"
      unfolding export_outcome_def by auto
    let ?D = "max d0 d1"
    from collect_children_mono [OF m, of ?D] run [of ?D]
    have 2: "?run ?D = Some (Inr m)" by simp
    from False nu have none: "\<not> (\<exists>c'\<in>set (?sub @ ?rest_us). unended h c')" by auto
    from combine_maps [OF mc a1 disj] 2 show ?thesis
      unfolding export_outcome_def if_not_P [OF none] U by blast
  qed
  note unf = collect_children_Cons [of _ h c "map snd rest" acc]
  consider (unit) m where "co = MCFunction m"
    | (tag) "\<not> (\<exists>m. co = MCFunction m)" "obj_children co = None"
    | (open_fn) "\<not> (\<exists>m. co = MCFunction m)" "obj_children co \<noteq> None" "unended_obj co"
    | (ns) "\<not> (\<exists>m. co = MCFunction m)" "obj_children co \<noteq> None" "\<not> unended_obj co"
    by blast
  then have "export_outcome h (?sub @ ?rest_us) (map_of acc) ?run"
  proof cases
    case unit
    with co have leaf: "descendants n h c = []" by (simp add: descendants_leaf)
    have isu: "is_unit h c" using co unit by (simp add: is_unit_def)
    have "((p, u) \<in> ?U1) = ((p, u) = (?pc, c))" for p u
    proof
      assume "(p, u) \<in> ?U1"
      then obtain d where "u = c" "path d h c = Some (Inr p)"
        unfolding units_in_def leaf by auto
      with path_unique [OF this(2) pc] show "(p, u) = (?pc, c)" by simp
    next
      assume "(p, u) = (?pc, c)"
      with isu pc show "(p, u) \<in> ?U1"
        unfolding units_in_def by (auto simp del: path.simps)
    qed
    then have u1: "?U1 = {(?pc, c)}" by auto
    show ?thesis
    proof (rule cont [of "AList.update ?pc c acc" "Suc k"])
      show "\<forall>p u. (map_of (AList.update ?pc c acc) p = Some u)
                 = ((p, u) \<in> ?U1 \<or> (map_of acc p = Some u \<and> p \<notin> fst ` ?U1))"
        unfolding u1 by (auto simp: update_conv')
      show "\<not> (\<exists>c'\<in>set ?sub. unended h c')"
        using co unit leaf by (simp add: unended_def)
      fix d assume "Suc k \<le> d"
      from path_mono [OF pc this] have "path d h c = Some (Inr ?pc)" .
      then show "?run d = collect_children d h (map snd rest) (AList.update ?pc c acc)"
        unfolding unf co unit by simp
    qed
  next
    case tag
    with co have leaf: "descendants n h c = []" by (simp add: descendants_leaf)
    from tag co have nounit: "\<not> is_unit h c" by (cases co) (auto simp: is_unit_def)
    from tag co have noopen: "\<not> unended h c" by (cases co) (auto simp: unended_def)
    have u1: "?U1 = {}"
      using nounit leaf by (auto simp: units_in_def)
    show ?thesis
    proof (rule cont [of acc 0])
      show "\<forall>p u. (map_of acc p = Some u)
                 = ((p, u) \<in> ?U1 \<or> (map_of acc p = Some u \<and> p \<notin> fst ` ?U1))"
        unfolding u1 by simp
      show "\<not> (\<exists>c'\<in>set ?sub. unended h c')"
        using noopen leaf by simp
      fix d :: nat
      from tag show "?run d = collect_children d h (map snd rest) acc"
        unfolding unf co by simp
    qed
  next
    case open_fn
    from open_fn co have op: "unended h c"
      by (cases co) (auto simp: unended_def unended_obj_def)
    from open_fn obtain chs' where chs': "obj_children co = Some chs'" by auto
    from open_fn chs' have "?run (Suc k) = Some (Inl (UnfinishedScope ?pc))"
      unfolding unf co pc by simp
    with op pc have "\<exists>c' p d. c' \<in> set (?sub @ ?rest_us) \<and> unended h c'
        \<and> path d h c' = Some (Inr p) \<and> ?run d = Some (Inl (UnfinishedScope p))"
      by (intro exI [of _ c] exI [of _ ?pc] exI [of _ "Suc k"])
         (simp del: collect_children.simps path.simps)
    moreover from op have "\<exists>c'\<in>set (?sub @ ?rest_us). unended h c'" by auto
    ultimately show ?thesis
      unfolding export_outcome_def by (simp del: collect_children.simps path.simps)
  next
    case ns
    then obtain chs' where chs': "obj_children co = Some chs'" by auto
    from ns co have noopen: "\<not> unended h c"
      by (cases co) (auto simp: unended_def unended_obj_def)
    from ns co have nounit: "\<not> is_unit h c" by (cases co) (auto simp: is_unit_def)
    have u1: "?U1 = units_in h (descendants n h c)"
      using nounit by (auto simp: units_in_def)
    note nd = node [OF w co(1) chs' pc]
    show ?thesis
    proof (cases "\<exists>c'\<in>set (descendants n h c). unended h c'")
      case True
      with nd obtain c' p d where c': "c' \<in> set (descendants n h c)" "unended h c'"
        "path d h c' = Some (Inr p)" "get_all_mcfunctions d h c = Some (Inl (UnfinishedScope p))"
        unfolding export_outcome_def by auto
      from ns chs' have "?run d = Some (Inl (UnfinishedScope p))"
        unfolding unf co c'(4) by simp
      with c'(1-3) have "\<exists>c' p d. c' \<in> set (?sub @ ?rest_us) \<and> unended h c'
          \<and> path d h c' = Some (Inr p) \<and> ?run d = Some (Inl (UnfinishedScope p))"
        by (intro exI [of _ c'] exI [of _ p] exI [of _ d])
           (simp del: collect_children.simps path.simps)
      moreover from c'(1,2) have "\<exists>c'\<in>set (?sub @ ?rest_us). unended h c'" by auto
      ultimately show ?thesis
        unfolding export_outcome_def by (simp del: collect_children.simps path.simps)
    next
      case False
      with nd obtain mc d0 where mc: "get_all_mcfunctions d0 h c = Some (Inr mc)"
        and cc: "\<forall>p u. (map_of mc p = Some u) = ((p, u) \<in> units_in h (descendants n h c))"
        unfolding export_outcome_def by auto
      from get_all_mcfunctions_distinct [OF mc] have dm: "distinct (map fst mc)" .
      show ?thesis
      proof (rule cont [of "dict_ior acc mc" d0])
        show "\<forall>p u. (map_of (dict_ior acc mc) p = Some u)
                 = ((p, u) \<in> ?U1 \<or> (map_of acc p = Some u \<and> p \<notin> fst ` ?U1))"
        proof (intro allI)
          fix p u
          show "(map_of (dict_ior acc mc) p = Some u)
                 = ((p, u) \<in> ?U1 \<or> (map_of acc p = Some u \<and> p \<notin> fst ` ?U1))"
          proof (cases "map_of mc p")
            case None
            with cc have 1: "p \<notin> fst ` ?U1" unfolding u1 by force
            from None cc [rule_format, of p u] have 2: "(p, u) \<notin> ?U1" unfolding u1 by simp
            from None have 3: "map_of (dict_ior acc mc) p = map_of acc p"
              by (simp add: map_of_dict_ior [OF dm])
            from 1 2 3 show ?thesis by simp
          next
            case (Some v)
            with cc [rule_format, of p v] have "(p, v) \<in> ?U1" unfolding u1 by simp
            then have 1: "p \<in> fst ` ?U1" by force
            from Some cc [rule_format, of p u] have 2: "((p, u) \<in> ?U1) = (v = u)"
              unfolding u1 by simp
            from Some have 3: "map_of (dict_ior acc mc) p = Some v"
              by (simp add: map_of_dict_ior [OF dm])
            from 1 2 3 show ?thesis by simp
          qed
        qed
        show "\<not> (\<exists>c'\<in>set ?sub. unended h c')"
          using noopen False by simp
        fix d assume "d0 \<le> d"
        from get_all_mcfunctions_mono [OF mc this]
        have "get_all_mcfunctions d h c = Some (Inr mc)" .
        with ns chs' show "?run d = collect_children d h (map snd rest) (dict_ior acc mc)"
          unfolding unf co by simp
      qed
    qed
  qed
  then show ?case unfolding us runs .
qed

lemma get_all_mcfunctions_outcome:
  "\<lbrakk>wf_tree n h a; lookup h a = Some ob; obj_children ob = Some chs;
    path k h a = Some (Inr pa)\<rbrakk>
   \<Longrightarrow> export_outcome h (descendants n h a) Map.empty (\<lambda>d. get_all_mcfunctions d h a)"
proof (induction n arbitrary: a ob chs k pa)
  case 0
  then show ?case by simp
next
  case (Suc n)
  let ?us = "concat (map (\<lambda>c. c # descendants n h c) (map snd chs))"
  let ?loop = "\<lambda>d. collect_children d h (map snd chs) []"
  have cs: "\<forall>(kc, c)\<in>set chs. wf_tree n h c
               \<and> (\<exists>co. lookup h c = Some co \<and> obj_name co = kc \<and> obj_parent co = Some a)"
    using wf_tree_child [OF Suc.prems(1-3)] by blast
  have dist: "distinct (map fst chs)"
    using wf_tree_distinct [OF Suc.prems(1-3)] .
  have L: "export_outcome h ?us (map_of []) ?loop"
    using Suc.IH Suc.prems(4) cs dist by (rule collect_children_outcome)
  have desc: "descendants (Suc n) h a = ?us"
    using Suc.prems(2,3) by simp
  have run: "get_all_mcfunctions (Suc d) h a = ?loop d" for d
    using Suc.prems(2,3) by simp
  show ?case
  proof (cases "\<exists>c\<in>set ?us. unended h c")
    case True
    with L obtain c p d where c: "c \<in> set ?us" "unended h c" "path d h c = Some (Inr p)"
      "?loop d = Some (Inl (UnfinishedScope p))"
      unfolding export_outcome_def by auto
    from path_Suc [OF c(3)] c(4) run [of d]
    have "path (Suc d) h c = Some (Inr p)"
      "get_all_mcfunctions (Suc d) h a = Some (Inl (UnfinishedScope p))" by simp_all
    with c(1,2) True show ?thesis
      unfolding export_outcome_def desc by (simp del: path.simps get_all_mcfunctions.simps) blast
  next
    case False
    with L obtain m d where m: "?loop d = Some (Inr m)"
      and mc: "\<forall>p u. (map_of m p = Some u)
                 = ((p, u) \<in> units_in h ?us \<or> (map_of [] p = Some u \<and> p \<notin> fst ` units_in h ?us))"
      unfolding export_outcome_def by auto
    from m run [of d] have "get_all_mcfunctions (Suc d) h a = Some (Inr m)" by simp
    with mc False show ?thesis
      unfolding export_outcome_def desc by (simp del: path.simps get_all_mcfunctions.simps) blast
  qed
qed

text \<open>
  A tree of height at most \<open>n\<close> is one of any greater height, with the same objects below
  its root: \<open>descendants n\<close> has them all.
\<close>

lemma wf_tree_Suc: "wf_tree n h a \<Longrightarrow> wf_tree (Suc n) h a"
proof (induction n arbitrary: a)
  case 0
  then show ?case by simp
next
  case (Suc n)
  from Suc.prems obtain ob where ob: "lookup h a = Some ob" by (auto split: option.splits)
  show ?case
  proof (cases "obj_children ob")
    case None
    with ob show ?thesis by simp
  next
    case (Some chs)
    have "wf_tree (Suc n) h c" if "(kc, c) \<in> set chs" for kc c
      using wf_tree_child(1) [OF Suc.prems ob Some that] by (rule Suc.IH)
    moreover have "\<exists>co. lookup h c = Some co \<and> obj_name co = kc \<and> obj_parent co = Some a"
      if "(kc, c) \<in> set chs" for kc c
      using wf_tree_child(2) [OF Suc.prems ob Some that] .
    moreover note wf_tree_distinct [OF Suc.prems ob Some]
    moreover have "wf_tree (Suc (Suc n)) h a
        = (distinct (map fst chs)
           \<and> list_all (\<lambda>(k, c). wf_tree (Suc n) h c
                               \<and> (case lookup h c of
                                     None \<Rightarrow> False
                                   | Some co \<Rightarrow> obj_name co = k \<and> obj_parent co = Some a))
                     chs)"
      by (subst wf_tree.simps(2)) (simp add: ob Some del: wf_tree.simps)
    ultimately show ?thesis
      by (fastforce simp: list_all_iff simp del: wf_tree.simps)
  qed
qed

lemma descendants_Suc: "wf_tree n h a \<Longrightarrow> descendants (Suc n) h a = descendants n h a"
proof (induction n arbitrary: a)
  case 0
  then show ?case by simp
next
  case (Suc n)
  from Suc.prems obtain ob where ob: "lookup h a = Some ob" by (auto split: option.splits)
  show ?case
  proof (cases "obj_children ob")
    case None
    with ob show ?thesis by simp
  next
    case (Some chs)
    have "descendants (Suc n) h c = descendants n h c" if "c \<in> set (map snd chs)" for c
    proof -
      from that obtain kc where "(kc, c) \<in> set chs" by auto
      from wf_tree_child(1) [OF Suc.prems ob Some this] show ?thesis by (rule Suc.IH)
    qed
    then have m: "map (\<lambda>c. c # descendants (Suc n) h c) (map snd chs)
             = map (\<lambda>c. c # descendants n h c) (map snd chs)"
      by (intro map_cong) simp_all
    have d: "descendants (Suc j) h a
        = concat (map (\<lambda>c. c # descendants j h c) (map snd chs))" for j
      by (subst descendants.simps(2)) (simp add: ob Some del: descendants.simps)
    show ?thesis unfolding d m ..
  qed
qed

lemma scenario_eq: "scenario = Inr scenario_heap"
  by code_simp

lemma scenario_export_eq:
  "scenario_export
   = Some (Inr [([''ns'', ''f'', ''f''], 2), ([''ns'', ''f'', ''if1'', ''if1''], 4),
                ([''ns'', ''f'', ''if-continue2''], 5)])"
  by code_simp

lemma fn_heap_tree: "wf_tree 3 fn_heap 0" "path 1 fn_heap 0 = Some (Inr [''ns''])"
  "descendants 3 fn_heap 0 = [1, 2, 3, 4]" "unended fn_heap 1"
  "get_all_mcfunctions 3 fn_heap 0 = Some (Inl (UnfinishedScope [''ns'', ''f'']))"
  by code_simp+

lemma scenario_heap_tree: "wf_tree 4 scenario_heap 0" "path 1 scenario_heap 0 = Some (Inr [''ns''])"
  "descendants 4 scenario_heap 0 = [1, 2, 3, 4, 5]"
  "list_all (\<lambda>c. \<not> unended scenario_heap c) (descendants 4 scenario_heap 0)"
  "get_all_mcfunctions 7 scenario_heap 0 = Some (Inr [([''ns'', ''f'', ''f''], 2), ([''ns'', ''f'', ''if1'', ''if1''], 4),
                ([''ns'', ''f'', ''if-continue2''], 5)])"
  by code_simp+

lemma length_update_new:
  "map_of al k = None \<Longrightarrow> length (AList.update k v al) = Suc (length al)"
  by (induction al) (auto split: if_splits)

section \<open>An ended Function stays ended\<close>

lemma ended_obj_set [simp]:
  "ended_obj (set_children cs ob) = ended_obj ob"
  "ended_obj (set_parent p ob) = ended_obj ob"
  by (cases ob; simp add: ended_obj_def)+

lemma ended_update:
  "ended h a \<Longrightarrow> b = a \<longrightarrow> ended_obj x \<Longrightarrow> ended (h[b := x]) a"
  by (cases "b = a") (auto simp: ended_def lookup_def split: if_splits)

lemma ended_update_same:
  "ended h a \<Longrightarrow> lookup h b = Some ob \<Longrightarrow> ended_obj ob \<longrightarrow> ended_obj x
     \<Longrightarrow> ended (h[b := x]) a"
  by (cases "b = a") (auto simp: ended_def lookup_def split: if_splits)

lemma ended_append: "ended h a \<Longrightarrow> ended (h @ xs) a"
  by (auto simp: ended_def lookup_def nth_append split: if_splits)

lemma ended_add: "add h n cs = Inr h' \<Longrightarrow> ended h a \<Longrightarrow> ended h' a"
proof (induction cs arbitrary: h)
  case Nil
  then show ?case by simp
next
  case (Cons c cs)
  from Cons.prems(1) obtain child s chs where
    c: "lookup h c = Some child" and s: "lookup h n = Some s"
    and chs: "obj_children s = Some chs"
    by (auto split: option.splits)
  let ?h1 = "h[n := set_children (AList.update (obj_name child) c chs) s]"
  let ?h2 = "?h1[c := set_parent (Some n) (?h1 ! c)]"
  from Cons.prems(1) c s chs have r: "add ?h2 n cs = Inr h'" by (simp add: Let_def)
  have 1: "ended ?h1 a"
    using Cons.prems(2) s by (rule ended_update_same) simp
  have lc: "lookup ?h1 c = Some (?h1 ! c)"
    using c by (auto simp: lookup_def split: if_splits)
  have "ended ?h2 a"
    using 1 lc by (rule ended_update_same) simp
  with r show ?case by (rule Cons.IH)
qed

lemma ended_create_namespace:
  "create_namespace h n s = Inr (c, h') \<Longrightarrow> ended h a \<Longrightarrow> ended h' a"
  unfolding create_namespace_def new_namespace_def
  by (auto split: sum.splits simp del: add.simps dest: ended_add [OF _ ended_append])

lemma ended_create_function:
  "create_function h n s as d tgs = Inr (c, h') \<Longrightarrow> ended h a \<Longrightarrow> ended h' a"
  unfolding create_function_def new_function_def Let_def
  by (auto split: sum.splits simp del: add.simps dest: ended_add [OF _ ended_append])

lemma ended_create_mcfunction:
  "create_mcfunction h n s tgs d = Inr (c, h') \<Longrightarrow> ended h a \<Longrightarrow> ended h' a"
  unfolding create_mcfunction_def new_mcfunction_def
  by (auto split: sum.splits simp del: add.simps dest: ended_add [OF _ ended_append])

lemma ended_create_function_tag:
  "create_function_tag h n s = (c, h') \<Longrightarrow> ended h a \<Longrightarrow> ended h' a"
  unfolding create_function_tag_def Let_def
  by (auto simp: list_update_append intro: ended_append)

lemma ended_create_class:
  "create_class h n s ps = Inr (c, h') \<Longrightarrow> ended h a \<Longrightarrow> ended h' a"
  unfolding create_class_def new_class_def
  by (auto split: sum.splits simp del: add.simps dest: ended_add [OF _ ended_append])

lemma ended_create_template:
  "create_template h n s t = Inr (c, h') \<Longrightarrow> ended h a \<Longrightarrow> ended h' a"
  unfolding create_template_def new_template_def
  by (auto split: sum.splits simp del: add.simps dest: ended_add [OF _ ended_append])

lemma ended_mcfunction_add_command:
  assumes "mcfunction_add_command h u c = Inr h'" and "ended h a"
  shows "ended h' a"
proof -
  from assms(1) obtain m where m: "lookup h u = Some (MCFunction m)"
    and h': "h' = h[u := MCFunction (m\<lparr>commands := commands m @ [c]\<rparr>)]"
    unfolding mcfunction_add_command_def by (auto split: option.splits obj.splits)
  show ?thesis
    unfolding h' using assms(2) m by (rule ended_update_same) (simp add: ended_obj_def)
qed

lemma ended_add_commands:
  "add_commands h f cs = Inr h' \<Longrightarrow> ended h a \<Longrightarrow> ended h' a"
proof (induction cs arbitrary: h)
  case Nil
  then show ?case by simp
next
  case (Cons c cs)
  from Cons.prems(1) obtain fo :: function_obj and h1 where
    1: "mcfunction_add_command h (current_mcfunction fo) c = Inr h1"
    and 2: "add_commands h1 f cs = Inr h'"
    by (auto split: option.splits obj.splits sum.splits)
  from ended_mcfunction_add_command [OF 1 Cons.prems(2)] have "ended h1 a" .
  with 2 show ?case by (rule Cons.IH)
qed

lemma ended_add_command:
  assumes "add_command h f cs = Inr h'" and "ended h a"
  shows "ended h' a"
proof -
  from assms(1) have "add_commands h f cs = Inr h'"
    unfolding add_command_def by (auto split: option.splits obj.splits if_splits)
  then show ?thesis using assms(2) by (rule ended_add_commands)
qed

lemma ended_end_fn:
  assumes "end_fn h f = Inr h'" and "ended h a"
  shows "ended h' a"
proof -
  from assms(1) obtain fo where fo: "lookup h f = Some (Function fo)"
    unfolding end_fn_def by (auto split: option.splits obj.splits)
  show ?thesis
  proof (cases "was_ended fo")
    case True
    with assms fo show ?thesis by (simp add: end_fn_def)
  next
    case False
    with assms(1) fo obtain m where m: "lookup h (current_mcfunction fo) = Some (MCFunction m)"
      and h': "h' = h[current_mcfunction fo := MCFunction (m\<lparr>continuation := continuation_f fo\<rparr>),
                      f := Function (fo\<lparr>was_ended := True\<rparr>)]"
      unfolding end_fn_def Let_def by (auto split: option.splits obj.splits)
    let ?h1 = "h[current_mcfunction fo := MCFunction (m\<lparr>continuation := continuation_f fo\<rparr>)]"
    have 1: "ended ?h1 a"
      using assms(2) m by (rule ended_update_same) (simp add: ended_obj_def)
    show ?thesis
      unfolding h' using 1 by (rule ended_update) (simp add: ended_obj_def)
  qed
qed

lemma ended_return_fn:
  assumes "return_fn h f v = Inr h'" and "ended h a"
  shows "ended h' a"
proof -
  from assms(1) obtain h1 and fo :: function_obj and m where
    1: "add_command h f [VarToVar v STD_RET] = Inr h1"
    and m: "lookup h1 (current_mcfunction fo) = Some (MCFunction m)"
    and h': "h' = h1[current_mcfunction fo := MCFunction (m\<lparr>continuation := None\<rparr>)]"
    unfolding return_fn_def by (auto split: option.splits obj.splits sum.splits)
  from ended_add_command [OF 1 assms(2)] have "ended h1 a" .
  then show ?thesis
    unfolding h' using m by (rule ended_update_same) (simp add: ended_obj_def)
qed

lemma ended_c_if:
  assumes "c_if h f cond = Inr (c, h')" and "ended h a"
  shows "ended h' a"
proof -
  from assms(1) obtain n1 i h1 n2 nm h2 cmds h3 and i3 f4 :: function_obj where
    s1: "create_function h f n1 [] [] {} = Inr (i, h1)"
    and s2: "create_mcfunction h1 f n2 {} [] = Inr (nm, h2)"
    and s3: "add_command h2 f cmds = Inr h3"
    and l3: "lookup h3 i = Some (Function i3)"
    and l4: "lookup (h3[i := Function (i3\<lparr>continuation_f := Some nm\<rparr>)]) f = Some (Function f4)"
    and h': "h' = h3[i := Function (i3\<lparr>continuation_f := Some nm\<rparr>),
                    f := Function (f4\<lparr>current_mcfunction := nm\<rparr>)]"
    unfolding c_if_def Let_def
    by (auto split: option.splits obj.splits sum.splits prod.splits)
  from ended_create_function [OF s1 assms(2)] have "ended h1 a" .
  from ended_create_mcfunction [OF s2 this] have "ended h2 a" .
  from ended_add_command [OF s3 this] have e3: "ended h3 a" .
  have e4: "ended (h3[i := Function (i3\<lparr>continuation_f := Some nm\<rparr>)]) a"
    using e3 l3 by (rule ended_update_same) (simp add: ended_obj_def)
  show ?thesis
    unfolding h' using e4 l4 by (rule ended_update_same) (simp add: ended_obj_def)
qed

lemma ended_call_no_varargs:
  assumes "c_call_function push h f g arg [] = Inr h'" and "ended h a"
  shows "ended h' a"
proof -
  from assms(1) obtain h1 h3 and go :: function_obj where
    s1: "comment h f (call_comment arg []) [PathString g] = Inr h1"
    and s2: "(case arg of None \<Rightarrow> Inr h1 | Some x \<Rightarrow> add_command h1 f [VarToVar x STD_ARG]) = Inr h3"
    and s3: "add_command h3 f [FunctionCall (entry_point go)] = Inr h'"
    unfolding c_call_function.simps [of push h f g arg "[]"]
    by (auto split: option.splits obj.splits sum.splits)
  from ended_add_command [OF s1 [unfolded comment_def] assms(2)] have "ended h1 a" .
  with s2 have "ended h3 a" by (cases arg) (auto dest: ended_add_command)
  from ended_add_command [OF s3 this] show ?thesis .
qed

lemma ended_push_varargs:
  "push_varargs push h f vs = Inr h' \<Longrightarrow> ended h a \<Longrightarrow> ended h' a"
proof (induction vs arbitrary: h)
  case Nil
  then show ?case by simp
next
  case (Cons v vs)
  from Cons.prems(1) obtain h1 where
    1: "c_call_function push h f push (Some v) [] = Inr h1"
    and 2: "push_varargs push h1 f vs = Inr h'"
    by (auto split: sum.splits)
  from ended_call_no_varargs [OF 1 Cons.prems(2)] have "ended h1 a" .
  with 2 show ?case by (rule Cons.IH)
qed

lemma ended_c_call_function:
  assumes "c_call_function push h f g arg varargs = Inr h'" and "ended h a"
  shows "ended h' a"
proof -
  from assms(1) obtain h1 h2 h3 and go :: function_obj where
    s1: "comment h f (call_comment arg varargs) [PathString g] = Inr h1"
    and sp: "push_varargs push h1 f varargs = Inr h2"
    and s2: "(case arg of None \<Rightarrow> Inr h2 | Some x \<Rightarrow> add_command h2 f [VarToVar x STD_ARG]) = Inr h3"
    and s3: "add_command h3 f [FunctionCall (entry_point go)] = Inr h'"
    unfolding c_call_function.simps [of push h f g arg varargs]
    by (auto split: option.splits obj.splits sum.splits)
  from ended_add_command [OF s1 [unfolded comment_def] assms(2)] have "ended h1 a" .
  from ended_push_varargs [OF sp this] have "ended h2 a" .
  with s2 have "ended h3 a" by (cases arg) (auto dest: ended_add_command)
  from ended_add_command [OF s3 this] show ?thesis .
qed

lemma later_ended: "later push h h' \<Longrightarrow> ended h a \<Longrightarrow> ended h' a"
proof (induction rule: later.induct)
  case (later_refl h)
  then show ?case .
next
  case (later_add h h1 n cs h2)
  then show ?case by (blast intro: ended_add)
next
  case (later_create_namespace h h1 n s c h2)
  then show ?case by (blast intro: ended_create_namespace)
next
  case (later_create_function h h1 n s as d tgs c h2)
  then show ?case by (blast intro: ended_create_function)
next
  case (later_create_mcfunction h h1 n s tgs d c h2)
  then show ?case by (blast intro: ended_create_mcfunction)
next
  case (later_create_function_tag h h1 n s c h2)
  then show ?case by (blast intro: ended_create_function_tag)
next
  case (later_create_class h h1 n s ps c h2)
  then show ?case by (blast intro: ended_create_class)
next
  case (later_create_template h h1 n s t c h2)
  then show ?case by (blast intro: ended_create_template)
next
  case (later_add_command h h1 f cmds h2)
  then show ?case by (blast intro: ended_add_command)
next
  case (later_c_call_function h h1 f g arg varargs h2)
  then show ?case by (blast intro: ended_c_call_function)
next
  case (later_c_if h h1 f cond c h2)
  then show ?case by (blast intro: ended_c_if)
next
  case (later_end h h1 f h2)
  then show ?case by (blast intro: ended_end_fn)
next
  case (later_return h h1 f v h2)
  then show ?case by (blast intro: ended_return_fn)
qed

lemma ended_after_end:
  assumes "end_fn h f = Inr h'"
  shows "ended h' f"
proof -
  from assms obtain fo where fo: "lookup h f = Some (Function fo)"
    unfolding end_fn_def by (auto split: option.splits obj.splits)
  show ?thesis
  proof (cases "was_ended fo")
    case True
    with assms fo show ?thesis by (simp add: end_fn_def ended_def ended_obj_def)
  next
    case False
    with assms fo obtain h1 where "h' = h1[f := Function (fo\<lparr>was_ended := True\<rparr>)]"
      "length h1 = length h"
      unfolding end_fn_def Let_def by (auto split: option.splits obj.splits)
    with fo show ?thesis
      by (auto simp: ended_def ended_obj_def lookup_def split: if_splits)
  qed
qed

lemma ended_add_command_fails: "ended h f \<Longrightarrow> add_command h f cs = Inl UseAfterEnd"
  by (auto simp: ended_def ended_obj_def add_command_def split: option.splits obj.splits)

lemma ended_end_fn_noop: "ended h f \<Longrightarrow> end_fn h f = Inr h"
  by (auto simp: ended_def ended_obj_def end_fn_def split: option.splits obj.splits)

section \<open>Namespace: replacing a binding (C9)\<close>

text \<open>
  C9. Let \<open>n\<close> be a Namespace (of any subclass) and \<open>c1\<close>, \<open>c2\<close> two objects of the same
  name \<open>s\<close>. Adding \<open>c1\<close> and then \<open>c2\<close> to \<open>n\<close> succeeds; after the first add \<open>n.get(s)\<close>
  is \<open>c1\<close> and the parent of \<open>c1\<close> is \<open>n\<close>; after the second add \<open>n.get(s)\<close> is \<open>c2\<close>, the
  parent of \<open>c2\<close> is \<open>n\<close>, and the parent of \<open>c1\<close> is still \<open>n\<close>.
\<close>

theorem add_replaces_binding:
  assumes "lookup h n = Some ob" "obj_children ob = Some chs"
    and "lookup h c1 = Some o1" "lookup h c2 = Some o2"
    and "obj_name o1 = s" "obj_name o2 = s"
  shows "\<exists>h1 h2. add h n [c1] = Inr h1 \<and> add h1 n [c2] = Inr h2
           \<and> namespace_get h1 n s = Inr c1
           \<and> map_option obj_parent (lookup h1 c1) = Some (Some n)
           \<and> namespace_get h2 n s = Inr c2
           \<and> map_option obj_parent (lookup h2 c2) = Some (Some n)
           \<and> map_option obj_parent (lookup h2 c1) = Some (Some n)"
  using assms unfolding lookup_Some_iff
  by (auto simp: Let_def lookup_def nth_list_update namespace_get_def update_conv')

theorem add_replaces_binding_witness:
  "lookup two_units 0 = Some (two_units ! 0)
   \<and> obj_children (two_units ! 0) = Some []
   \<and> lookup two_units 1 = Some (two_units ! 1)
   \<and> lookup two_units 2 = Some (two_units ! 2)
   \<and> obj_name (two_units ! 1) = ''u'' \<and> obj_name (two_units ! 2) = ''u''
   \<and> (\<exists>h1 h2. add two_units 0 [1] = Inr h1 \<and> add h1 0 [2] = Inr h2
         \<and> namespace_get h1 0 ''u'' = Inr 1
         \<and> map_option obj_parent (lookup h1 1) = Some (Some 0)
         \<and> namespace_get h2 0 ''u'' = Inr 2
         \<and> map_option obj_parent (lookup h2 2) = Some (Some 0)
         \<and> map_option obj_parent (lookup h2 1) = Some (Some 0))"
proof -
  have a: "lookup two_units 0 = Some (two_units ! 0)" "obj_children (two_units ! 0) = Some []"
    "lookup two_units 1 = Some (two_units ! 1)" "lookup two_units 2 = Some (two_units ! 2)"
    "obj_name (two_units ! 1) = ''u''" "obj_name (two_units ! 2) = ''u''"
    by (simp_all add: two_units_def lookup_def)
  from add_replaces_binding [OF a] a show ?thesis by blast
qed

section \<open>Facts about get and function tags\<close>

text \<open>
  \<open>get\<close> is the lookup that Python dispatches to: \<open>Class.get\<close> on a Class, which falls back
  to the declared parents, and \<open>Namespace.get\<close> on every other object. Appending a
  FunctionTag to the heap changes no answer of \<open>get\<close>; a direct hit is a hit of \<open>get\<close>; a
  direct miss is a miss of \<open>get\<close> on an object that is not a Class, and on a Class all of
  whose declared parents miss.
\<close>

lemma namespace_get_append_tag:
  "namespace_get (h @ [FunctionTag t]) a s = namespace_get h a s"
  by (auto simp: namespace_get_def lookup_def nth_append)

lemma get_append_tag:
  "get k (h @ [FunctionTag t]) a s = get k h a s"
  "get_inherited k (h @ [FunctionTag t]) ps s e = get_inherited k h ps s e"
proof (induction k h a s and k h ps s e rule: get_get_inherited.induct)
  case (1 h self s)
  then show ?case by simp
next
  case (2 n h self s)
  show ?case
  proof (cases "self < length h")
    case True
    then have l: "lookup (h @ [FunctionTag t]) self = lookup h self" "lookup h self = Some (h ! self)"
      by (simp_all add: lookup_def nth_append)
    show ?thesis
    proof (cases "h ! self")
      case (Class c)
      with l "2.IH" [of "h ! self" c] show ?thesis
        by (simp add: namespace_get_append_tag split: sum.splits error.splits)
    qed (use l in \<open>simp_all add: namespace_get_append_tag\<close>)
  next
    case False
    then show ?thesis
      by (cases "self = length h") (simp_all add: namespace_get_def lookup_def)
  qed
next
  case (3 n h s e)
  then show ?case by simp
next
  case (4 n h p ps s e)
  then show ?case by (simp split: option.splits sum.splits error.splits)
qed

lemma namespace_get_hit_get:
  "namespace_get h n s = Inr c \<Longrightarrow> get (Suc k) h n s = Some (Inr c)"
proof -
  assume a: "namespace_get h n s = Inr c"
  then obtain ob where ob: "lookup h n = Some ob"
    by (auto simp: namespace_get_def split: option.splits)
  with a show ?thesis by (cases ob) simp_all
qed

lemma get_miss_not_class:
  assumes "lookup h n = Some ob" and "namespace_get h n s = Inl (UnknownSymbol s)"
    and "\<forall>C. ob \<noteq> Class C"
  shows "get (Suc k) h n s = Some (Inl (UnknownSymbol s))"
  using assms by (cases ob) simp_all

lemma get_inherited_all_miss:
  "\<forall>p\<in>set ps. get k h p s = Some (Inl (UnknownSymbol s))
     \<Longrightarrow> get_inherited k h ps s e = Some (Inl e)"
  by (induction ps) simp_all

lemma get_miss_class:
  assumes "lookup h n = Some (Class C)" and "namespace_get h n s = Inl (UnknownSymbol s)"
    and "\<forall>p\<in>set (inherits_from C). get k h p s = Some (Inl (UnknownSymbol s))"
  shows "get (Suc k) h n s = Some (Inl (UnknownSymbol s))"
  using assms by (simp add: get_inherited_all_miss)

section \<open>Namespace: function tags are not inserted (C10)\<close>

text \<open>
  C10, as stated, fails when \<open>n\<close> is a Class: \<open>n.get(s)\<close> is then \<open>Class.get\<close>, which
  consults the declared parents. In \<open>class_heap\<close> the Class \<open>A\<close> (address 1) has no child
  \<open>s\<close>, its declared parent \<open>B\<close> binds \<open>s\<close> to the unit at address 2; after
  \<open>A.create_function_tag(s)\<close> the direct lookup in \<open>A.children\<close> still fails, and
  \<open>A.get(s)\<close> returns that unit instead of raising.
\<close>

theorem create_function_tag_class_counterexample:
  "lookup class_heap 1 = Some (class_heap ! 1)
   \<and> obj_children (class_heap ! 1) = Some []
   \<and> map_of ([] :: (string \<times> addr) list) ''s'' = None
   \<and> closed class_heap
   \<and> create_function_tag class_heap 1 ''s''
       = (3, class_heap @ [FunctionTag \<lparr>name = ''s'', parent = Some 1\<rparr>])
   \<and> namespace_get (class_heap @ [FunctionTag \<lparr>name = ''s'', parent = Some 1\<rparr>]) 1 ''s''
       = Inl (UnknownSymbol ''s'')
   \<and> get 2 (class_heap @ [FunctionTag \<lparr>name = ''s'', parent = Some 1\<rparr>]) 1 ''s''
       = Some (Inr 2)"
  by code_simp

text \<open>
  C10, amended. Let \<open>n\<close> be a Namespace (of any subclass) of a closed heap, in whose
  \<open>children\<close> the name \<open>s\<close> is not bound. \<open>create_function_tag\<close> returns a new FunctionTag
  named \<open>s\<close> whose parent is \<open>n\<close>, so that its path is the path of \<open>n\<close> followed by \<open>s\<close>;
  the object \<open>n\<close>, and with it its children, is unchanged, so the direct lookup
  \<open>n.children[s]\<close> still fails with UnknownSymbol; \<open>get(s)\<close> on every object of the old
  heap, \<open>n\<close> included, returns what it returned before the call; hence \<open>n.get(s)\<close> still
  fails with UnknownSymbol when \<open>n\<close> is not a Class, and when \<open>n\<close> is a Class on all of
  whose declared parents \<open>get(s)\<close> fails with UnknownSymbol; and the export pass from any
  object of the old heap returns what it returned without the tag. Every other
  \<open>create_*\<close> method, called with the same name, binds \<open>s\<close> in \<open>n\<close> to the object it
  returns, and \<open>n.get(s)\<close> then returns that object.
\<close>

theorem create_function_tag_not_inserted:
  assumes "lookup h n = Some ob" and "obj_children ob = Some chs" and "map_of chs s = None"
    and "closed h" and "create_function_tag h n s = (t, h')"
  shows "lookup h' t = Some (FunctionTag \<lparr>name = s, parent = Some n\<rparr>)
       \<and> (\<forall>k p. path k h' n = Some (Inr p) \<longrightarrow> path (Suc k) h' t = Some (Inr (p @ [s])))
       \<and> lookup h' n = Some ob
       \<and> namespace_get h' n s = Inl (UnknownSymbol s)
       \<and> (\<forall>k a. a < length h \<longrightarrow> get k h' a s = get k h a s)
       \<and> ((\<forall>C. ob \<noteq> Class C) \<longrightarrow> (\<forall>k. get (Suc k) h' n s = Some (Inl (UnknownSymbol s))))
       \<and> (\<forall>C k. ob = Class C
             \<and> (\<forall>p\<in>set (inherits_from C). get k h p s = Some (Inl (UnknownSymbol s)))
             \<longrightarrow> get (Suc k) h' n s = Some (Inl (UnknownSymbol s)))
       \<and> (\<forall>k r. r < length h \<longrightarrow> get_all_mcfunctions k h' r = get_all_mcfunctions k h r)
       \<and> (\<exists>c h2. create_namespace h n s = Inr (c, h2) \<and> namespace_get h2 n s = Inr c
             \<and> (\<forall>k. get (Suc k) h2 n s = Some (Inr c)))
       \<and> (\<exists>c h2. create_function h n s as d tgs = Inr (c, h2) \<and> namespace_get h2 n s = Inr c
             \<and> (\<forall>k. get (Suc k) h2 n s = Some (Inr c)))
       \<and> (\<exists>c h2. create_mcfunction h n s tgs d = Inr (c, h2) \<and> namespace_get h2 n s = Inr c
             \<and> (\<forall>k. get (Suc k) h2 n s = Some (Inr c)))
       \<and> (\<exists>c h2. create_class h n s ps = Inr (c, h2) \<and> namespace_get h2 n s = Inr c
             \<and> (\<forall>k. get (Suc k) h2 n s = Some (Inr c)))
       \<and> (\<exists>c h2. create_template h n s tid = Inr (c, h2) \<and> namespace_get h2 n s = Inr c
             \<and> (\<forall>k. get (Suc k) h2 n s = Some (Inr c)))"
proof -
  from assms(5) have t: "t = length h"
    and h': "h' = h @ [FunctionTag \<lparr>name = s, parent = Some n\<rparr>]"
    by (auto simp: create_function_tag_def Let_def list_update_append)
  from assms(1) have n: "n < length h" "h ! n = ob" by (simp_all add: lookup_Some_iff)
  have 1: "lookup h' t = Some (FunctionTag \<lparr>name = s, parent = Some n\<rparr>)"
    by (simp add: t h' lookup_def)
  have 2: "\<forall>k p. path k h' n = Some (Inr p) \<longrightarrow> path (Suc k) h' t = Some (Inr (p @ [s]))"
    using 1 by simp
  have 3: "lookup h' n = Some ob"
    using n by (simp add: h' lookup_def nth_append)
  have 4: "namespace_get h' n s = Inl (UnknownSymbol s)"
    using 3 assms(2,3) by (simp add: namespace_get_def)
  have g: "\<forall>k a. get k h' a s = get k h a s"
    by (simp add: h' get_append_tag del: get.simps)
  then have g0: "\<forall>k a. a < length h \<longrightarrow> get k h' a s = get k h a s"
    by simp
  have g1: "(\<forall>C. ob \<noteq> Class C) \<longrightarrow> (\<forall>k. get (Suc k) h' n s = Some (Inl (UnknownSymbol s)))"
    using get_miss_not_class [OF 3 4] by blast
  have g2: "\<forall>C k. ob = Class C
             \<and> (\<forall>p\<in>set (inherits_from C). get k h p s = Some (Inl (UnknownSymbol s)))
             \<longrightarrow> get (Suc k) h' n s = Some (Inl (UnknownSymbol s))"
  proof (intro allI impI, elim conjE)
    fix C k
    assume ob: "ob = Class C"
      and ps: "\<forall>p\<in>set (inherits_from C). get k h p s = Some (Inl (UnknownSymbol s))"
    from ps g have "\<forall>p\<in>set (inherits_from C). get k h' p s = Some (Inl (UnknownSymbol s))"
      by simp
    with 3 4 ob show "get (Suc k) h' n s = Some (Inl (UnknownSymbol s))"
      by (intro get_miss_class) simp_all
  qed
  have 5: "\<forall>k r. r < length h \<longrightarrow> get_all_mcfunctions k h' r = get_all_mcfunctions k h r"
    using assms(4) by (simp add: h' export_append)
  have "\<exists>c h2. create_namespace h n s = Inr (c, h2) \<and> namespace_get h2 n s = Inr c"
    using assms(1,2)
    by (simp add: create_namespace_def new_namespace_def add_fresh namespace_get_fresh del: add.simps)
  then have 6: "\<exists>c h2. create_namespace h n s = Inr (c, h2) \<and> namespace_get h2 n s = Inr c
             \<and> (\<forall>k. get (Suc k) h2 n s = Some (Inr c))"
    using namespace_get_hit_get by blast
  have "\<exists>c h2. create_function h n s as d tgs = Inr (c, h2) \<and> namespace_get h2 n s = Inr c"
    using assms(1,2) add_fresh [OF assms(1,2), of "Function \<lparr>name = s, parent = None, children = [(s, Suc (length h))], args = as,
                          continuation_f = None, entry_point = Suc (length h),
                          current_mcfunction = Suc (length h), was_ended = False\<rparr>"]
    unfolding lookup_Some_iff
    by (simp add: create_function_def new_function_def Let_def namespace_get_def lookup_def
          nth_append update_conv')
  then have 7: "\<exists>c h2. create_function h n s as d tgs = Inr (c, h2) \<and> namespace_get h2 n s = Inr c
             \<and> (\<forall>k. get (Suc k) h2 n s = Some (Inr c))"
    using namespace_get_hit_get by blast
  have "\<exists>c h2. create_mcfunction h n s tgs d = Inr (c, h2) \<and> namespace_get h2 n s = Inr c"
    using assms(1,2)
    by (simp add: create_mcfunction_def new_mcfunction_def add_fresh namespace_get_fresh del: add.simps)
  then have 8: "\<exists>c h2. create_mcfunction h n s tgs d = Inr (c, h2) \<and> namespace_get h2 n s = Inr c
             \<and> (\<forall>k. get (Suc k) h2 n s = Some (Inr c))"
    using namespace_get_hit_get by blast
  have "\<exists>c h2. create_class h n s ps = Inr (c, h2) \<and> namespace_get h2 n s = Inr c"
    using assms(1,2)
    by (simp add: create_class_def new_class_def add_fresh namespace_get_fresh del: add.simps)
  then have 9: "\<exists>c h2. create_class h n s ps = Inr (c, h2) \<and> namespace_get h2 n s = Inr c
             \<and> (\<forall>k. get (Suc k) h2 n s = Some (Inr c))"
    using namespace_get_hit_get by blast
  have "\<exists>c h2. create_template h n s tid = Inr (c, h2) \<and> namespace_get h2 n s = Inr c"
    using assms(1,2)
    by (simp add: create_template_def new_template_def add_fresh namespace_get_fresh del: add.simps)
  then have 10: "\<exists>c h2. create_template h n s tid = Inr (c, h2) \<and> namespace_get h2 n s = Inr c
             \<and> (\<forall>k. get (Suc k) h2 n s = Some (Inr c))"
    using namespace_get_hit_get by blast
  from 1 2 3 4 g0 g1 g2 5 6 7 8 9 10 show ?thesis by (intro conjI)
qed

theorem create_function_tag_not_inserted_witness:
  "lookup two_units 0 = Some (two_units ! 0)
   \<and> obj_children (two_units ! 0) = Some []
   \<and> map_of ([] :: (string \<times> addr) list) ''load'' = None
   \<and> closed two_units
   \<and> create_function_tag two_units 0 ''load''
       = (3, two_units @ [FunctionTag \<lparr>name = ''load'', parent = Some 0\<rparr>])
   \<and> namespace_get (two_units @ [FunctionTag \<lparr>name = ''load'', parent = Some 0\<rparr>]) 0 ''load''
       = Inl (UnknownSymbol ''load'')
   \<and> get 1 (two_units @ [FunctionTag \<lparr>name = ''load'', parent = Some 0\<rparr>]) 0 ''load''
       = Some (Inl (UnknownSymbol ''load''))
   \<and> path 2 (two_units @ [FunctionTag \<lparr>name = ''load'', parent = Some 0\<rparr>]) 3
       = Some (Inr [''ns'', ''load''])
   \<and> lookup class_heap 1 = Some (class_heap ! 1)
   \<and> obj_children (class_heap ! 1) = Some []
   \<and> closed class_heap
   \<and> create_function_tag class_heap 1 ''t''
       = (3, class_heap @ [FunctionTag \<lparr>name = ''t'', parent = Some 1\<rparr>])
   \<and> get 1 class_heap 0 ''t'' = Some (Inl (UnknownSymbol ''t''))
   \<and> get 2 (class_heap @ [FunctionTag \<lparr>name = ''t'', parent = Some 1\<rparr>]) 1 ''t''
       = Some (Inl (UnknownSymbol ''t''))"
proof -
  let ?h' = "two_units @ [FunctionTag \<lparr>name = ''load'', parent = Some 0\<rparr>]"
  let ?c' = "class_heap @ [FunctionTag \<lparr>name = ''t'', parent = Some 1\<rparr>]"
  let ?A = "\<lparr>name = ''A'', parent = None, children = [], inherits_from = [0]\<rparr>"
  have a: "lookup two_units 0 = Some (two_units ! 0)" "obj_children (two_units ! 0) = Some []"
    "map_of ([] :: (string \<times> addr) list) ''load'' = None" "closed two_units"
    "create_function_tag two_units 0 ''load'' = (3, ?h')"
    by (simp_all add: two_units_def lookup_def closed_def create_function_tag_def)
  have p: "path 1 ?h' 0 = Some (Inr [''ns''])"
    by (simp add: two_units_def lookup_def)
  have nc: "\<forall>C. two_units ! 0 \<noteq> Class C"
    by (simp add: two_units_def)
  note r = create_function_tag_not_inserted [OF a]
  from r have 1: "namespace_get ?h' 0 ''load'' = Inl (UnknownSymbol ''load'')"
    by blast
  from r nc have 2: "get (Suc 0) ?h' 0 ''load'' = Some (Inl (UnknownSymbol ''load''))"
    by blast
  from r p have 3: "path (Suc 1) ?h' 3 = Some (Inr ([''ns''] @ [''load'']))"
    by blast
  have b: "lookup class_heap 1 = Some (class_heap ! 1)" "obj_children (class_heap ! 1) = Some []"
    "map_of ([] :: (string \<times> addr) list) ''t'' = None" "closed class_heap"
    "create_function_tag class_heap 1 ''t'' = (3, ?c')"
    by (simp_all add: class_heap_def lookup_def closed_def create_function_tag_def)
  have cl: "class_heap ! 1 = Class ?A"
    by (simp add: class_heap_def)
  have g0: "get 1 class_heap 0 ''t'' = Some (Inl (UnknownSymbol ''t''))"
    by (simp add: class_heap_def lookup_def namespace_get_def)
  then have ps: "\<forall>p\<in>set (inherits_from ?A). get (Suc 0) class_heap p ''t''
                   = Some (Inl (UnknownSymbol ''t''))"
    by simp
  note q = create_function_tag_not_inserted [OF b]
  from q cl ps have 4: "get (Suc (Suc 0)) ?c' 1 ''t'' = Some (Inl (UnknownSymbol ''t''))"
    by blast
  from a b g0 1 2 3 4 show ?thesis
    by (simp add: numeral_2_eq_2 del: get.simps path.simps)
qed

section \<open>Function: add_command and use after end (C5)\<close>

text \<open>
  C5. For a Function \<open>self\<close>: if its \<open>was_ended\<close> flag is set, \<open>add_command\<close> fails with the
  assertion error UseAfterEnd, whatever the commands; this is so in the heap that a call
  of \<open>end\<close> on \<open>self\<close> returned and in every later heap; if the flag is not set,
  \<open>add_command\<close> appends the given commands, in their order, to the commands of the
  current unit and changes nothing else.
\<close>

theorem add_command_after_end:
  assumes "lookup h self = Some (Function f)"
  shows "(was_ended f \<longrightarrow> add_command h self cs = Inl UseAfterEnd)
       \<and> (\<forall>h0 h1 push. end_fn h0 self = Inr h1 \<longrightarrow> later push h1 h
             \<longrightarrow> add_command h self cs = Inl UseAfterEnd)
       \<and> (\<not> was_ended f \<longrightarrow> (\<forall>m. lookup h (current_mcfunction f) = Some (MCFunction m) \<longrightarrow>
            add_command h self cs
            = Inr (h[current_mcfunction f := MCFunction (m\<lparr>commands := commands m @ cs\<rparr>)])))"
proof -
  have 1: "was_ended f \<longrightarrow> add_command h self cs = Inl UseAfterEnd"
    using assms by (simp add: add_command_def)
  have 2: "add_command h self cs = Inl UseAfterEnd"
    if "end_fn h0 self = Inr h1" and "later push h1 h" for h0 h1 push
  proof -
    from that(1) have "ended h1 self" by (rule ended_after_end)
    with that(2) have "ended h self" by (rule later_ended)
    then show ?thesis by (rule ended_add_command_fails)
  qed
  have 3: "\<not> was_ended f \<longrightarrow> (\<forall>m. lookup h (current_mcfunction f) = Some (MCFunction m) \<longrightarrow>
            add_command h self cs
            = Inr (h[current_mcfunction f := MCFunction (m\<lparr>commands := commands m @ cs\<rparr>)]))"
    using assms by (simp add: add_command_def add_commands_appends)
  from 1 2 3 show ?thesis by blast
qed

theorem add_command_after_end_witness:
  "lookup fn_heap 1 = Some (fn_heap ! 1) \<and> \<not> was_ended (case fn_heap ! 1 of Function f \<Rightarrow> f)
   \<and> add_command fn_heap 1 [Comment ''a'' [], Comment ''b'' []]
       = Inr (fn_heap[2 := MCFunction \<lparr>name = ''f'', parent = Some 1, description = [],
                tags = {}, commands = [Comment ''a'' [], Comment ''b'' []],
                continuation = None\<rparr>])
   \<and> (\<exists>h. end_fn fn_heap 1 = Inr h \<and> add_command h 1 [Comment ''a'' []] = Inl UseAfterEnd)"
proof -
  let ?f = "\<lparr>name = ''f'', parent = Some 0, children = [(''f'', 2)], args = [],
                 continuation_f = None, entry_point = 2, current_mcfunction = 2,
                 was_ended = False\<rparr>"
  let ?m = "\<lparr>name = ''f'', parent = Some 1, description = [], tags = {},
                   commands = [], continuation = None\<rparr>"
  have a: "lookup fn_heap 1 = Some (Function ?f)"
    and b: "lookup fn_heap (current_mcfunction ?f) = Some (MCFunction ?m)"
    and c: "\<not> was_ended ?f"
    by (simp_all add: fn_heap_def lookup_def)
  obtain h where h: "end_fn fn_heap 1 = Inr h" "lookup h 1 = Some (Function (?f\<lparr>was_ended := True\<rparr>))"
    using end_fn_result [OF a c b] by (simp add: lookup_def fn_heap_def)
  from add_command_after_end [OF a, of "[Comment ''a'' [], Comment ''b'' []]"] b c
  have 1: "add_command fn_heap 1 [Comment ''a'' [], Comment ''b'' []]
       = Inr (fn_heap[2 := MCFunction \<lparr>name = ''f'', parent = Some 1, description = [],
                tags = {}, commands = [Comment ''a'' [], Comment ''b'' []],
                continuation = None\<rparr>])"
    by simp
  from add_command_after_end [OF h(2), of "[Comment ''a'' []]"] h(1) later_refl [of 0 h]
  have 2: "add_command h 1 [Comment ''a'' []] = Inl UseAfterEnd" by blast
  from a c 1 2 h(1) show ?thesis by (simp add: fn_heap_def)
qed

section \<open>Function: end is idempotent (C6)\<close>

text \<open>
  C6. For a Function \<open>self\<close> that is not ended: the first call of \<open>end\<close> sets the
  continuation of the current unit to the Function's own continuation and sets
  \<open>was_ended\<close>, and changes no other object; a second call returns the heap as it is;
  and so does a call of \<open>end\<close> on \<open>self\<close> in every later heap.
\<close>

theorem end_idempotent:
  assumes "lookup h self = Some (Function f)"
    and "lookup h (current_mcfunction f) = Some (MCFunction m)"
    and "\<not> was_ended f"
  shows "\<exists>h1. end_fn h self = Inr h1
           \<and> lookup h1 (current_mcfunction f)
               = Some (MCFunction (m\<lparr>continuation := continuation_f f\<rparr>))
           \<and> lookup h1 self = Some (Function (f\<lparr>was_ended := True\<rparr>))
           \<and> length h1 = length h
           \<and> (\<forall>a. a \<noteq> self \<longrightarrow> a \<noteq> current_mcfunction f \<longrightarrow> lookup h1 a = lookup h a)
           \<and> end_fn h1 self = Inr h1
           \<and> (\<forall>push h2. later push h1 h2 \<longrightarrow> end_fn h2 self = Inr h2)"
proof -
  from assms have ne: "self \<noteq> current_mcfunction f" by auto
  from assms have lt: "self < length h" "current_mcfunction f < length h"
    by (auto dest: lookup_SomeD)
  let ?h1 = "h[current_mcfunction f := MCFunction (m\<lparr>continuation := continuation_f f\<rparr>),
               self := Function (f\<lparr>was_ended := True\<rparr>)]"
  have e: "end_fn h self = Inr ?h1"
    using assms(1) assms(3) assms(2) by (rule end_fn_result)
  have l: "end_fn h2 self = Inr h2" if "later push ?h1 h2" for push h2
  proof -
    from e have "ended ?h1 self" by (rule ended_after_end)
    with that have "ended h2 self" by (rule later_ended)
    then show ?thesis by (rule ended_end_fn_noop)
  qed
  from assms ne lt e l show ?thesis
    by (simp add: lookup_update end_fn_def)
qed

theorem end_idempotent_witness:
  "lookup fn_heap 1 = Some (fn_heap ! 1) \<and> lookup fn_heap 2 = Some (fn_heap ! 2)
   \<and> (\<exists>h1. end_fn fn_heap 1 = Inr h1 \<and> end_fn h1 1 = Inr h1
          \<and> map_option obj_parent (lookup h1 1) = Some (Some 0))"
proof -
  let ?f = "\<lparr>name = ''f'', parent = Some 0, children = [(''f'', 2)], args = [],
                 continuation_f = None, entry_point = 2, current_mcfunction = 2,
                 was_ended = False\<rparr>"
  let ?m = "\<lparr>name = ''f'', parent = Some 1, description = [], tags = {},
                   commands = [], continuation = None\<rparr>"
  have a: "lookup fn_heap 1 = Some (Function ?f)"
    and b: "lookup fn_heap (current_mcfunction ?f) = Some (MCFunction ?m)"
    and c: "\<not> was_ended ?f"
    by (simp_all add: fn_heap_def lookup_def)
  from end_idempotent [OF a b c] obtain h1 where
    "end_fn fn_heap 1 = Inr h1" "end_fn h1 1 = Inr h1"
    "lookup h1 1 = Some (Function (?f\<lparr>was_ended := True\<rparr>))"
    by blast
  then show ?thesis by (auto simp: fn_heap_def lookup_def)
qed

section \<open>Function: the conditional (C2)\<close>

text \<open>
  C2. For a Function \<open>self\<close> that is not ended, \<open>c_if\<close> succeeds and returns a then-branch
  \<open>if_fn\<close>. Exactly two commands are appended to the unit that was current before the
  call; the then-branch and the continuation unit \<open>cont\<close> are new objects, different from
  each other, the first a Function that is not ended, the second a unit; the
  continuation of the then-branch is \<open>cont\<close>; the cursor of \<open>self\<close> is \<open>cont\<close>; and ending
  the then-branch makes the continuation of its final unit \<open>cont\<close>.
\<close>

theorem c_if_effect:
  assumes "lookup h self = Some (Function f)" and "\<not> was_ended f"
    and "lookup h (current_mcfunction f) = Some (MCFunction m)"
  shows "\<exists>if_fn h' i cont f'.
           c_if h self cond = Inr (if_fn, h')
         \<and> lookup h' (current_mcfunction f)
             = Some (MCFunction (m\<lparr>commands := commands m @ if_commands cond (entry_point i) cont\<rparr>))
         \<and> length (if_commands cond (entry_point i) cont) = 2
         \<and> lookup h if_fn = None \<and> lookup h cont = None
         \<and> lookup h' if_fn = Some (Function i) \<and> \<not> was_ended i
         \<and> (\<exists>u. lookup h' cont = Some (MCFunction u))
         \<and> if_fn \<noteq> cont
         \<and> continuation_f i = Some cont
         \<and> lookup h' self = Some (Function f') \<and> current_mcfunction f' = cont
         \<and> \<not> was_ended f'
         \<and> (\<exists>h'' j u. end_fn h' if_fn = Inr h''
               \<and> lookup h'' if_fn = Some (Function j) \<and> was_ended j
               \<and> lookup h'' (current_mcfunction j) = Some (MCFunction u)
               \<and> continuation u = Some cont)"
proof -
  let ?L = "length h"
  let ?cur = "current_mcfunction f"
  from assms have lt: "self < ?L" "?cur < ?L" and neq: "self \<noteq> ?cur"
    by (auto dest: lookup_SomeD)
  let ?name1 = "''if'' @ str_nat (length (children f))"
  let ?I = "\<lparr>name = ?name1, parent = Some self, children = [(?name1, Suc ?L)], args = [],
                    continuation_f = Some (Suc (Suc ?L)), entry_point = Suc ?L,
                    current_mcfunction = Suc ?L, was_ended = False\<rparr>"
  let ?E = "\<lparr>name = ?name1, parent = Some ?L, description = [], tags = {},
                      commands = [], continuation = None\<rparr>"
  note r = c_if_result [OF assms, of cond]
  obtain h' where h': "c_if h self cond = Inr (?L, h')" using r by simp
  note eq = r [unfolded h', simplified]
  have a: "lookup h' ?cur = Some (MCFunction (m\<lparr>commands := commands m @ if_commands cond (entry_point ?I) (Suc (Suc ?L))\<rparr>))"
    using lt neq unfolding eq by (simp add: lookup_def nth_append)
  have b: "length (if_commands cond (entry_point ?I) (Suc (Suc ?L))) = 2"
    by (simp add: if_commands_def split: prod.splits)
  have c: "lookup h ?L = None" "lookup h (Suc (Suc ?L)) = None"
    by (simp_all add: lookup_def)
  have d: "lookup h' ?L = Some (Function ?I)"
    unfolding eq by (simp add: lookup_def nth_append)
  have e: "\<exists>u. lookup h' (Suc (Suc ?L)) = Some (MCFunction u)"
    unfolding eq by (simp add: lookup_def nth_append)
  have e1: "lookup h' (current_mcfunction ?I) = Some (MCFunction ?E)"
    unfolding eq by (simp add: lookup_def nth_append)
  have e2: "\<not> was_ended ?I" by simp
  have g: "\<exists>f'. lookup h' self = Some (Function f') \<and> current_mcfunction f' = Suc (Suc ?L)
              \<and> \<not> was_ended f'"
    using lt neq assms(2) unfolding eq by (simp add: lookup_def nth_append)
  have len: "length h' = Suc (Suc (Suc ?L))"
    unfolding eq by simp
  have k: "\<exists>h'' j u. end_fn h' ?L = Inr h''
               \<and> lookup h'' ?L = Some (Function j) \<and> was_ended j
               \<and> lookup h'' (current_mcfunction j) = Some (MCFunction u)
               \<and> continuation u = Some (Suc (Suc ?L))"
    using end_fn_result [OF d e2 e1] len
    by (simp add: lookup_update)
  from g obtain f' where f': "lookup h' self = Some (Function f')"
    "current_mcfunction f' = Suc (Suc ?L)" "\<not> was_ended f'" by blast
  show ?thesis
    apply (rule exI [of _ ?L], rule exI [of _ h'], rule exI [of _ ?I])
    apply (rule exI [of _ "Suc (Suc ?L)"], rule exI [of _ f'])
    using h' a b c d e f' k apply simp
    done
qed

theorem c_if_effect_witness:
  "lookup fn_heap 1 = Some (fn_heap ! 1) \<and> lookup fn_heap 2 = Some (fn_heap ! 2)
   \<and> (\<exists>h'. c_if fn_heap 1 (Condition ''c'' []) = Inr (5, h')
         \<and> map_option obj_name (lookup h' 5) = Some ''if1''
         \<and> map_option obj_name (lookup h' 7) = Some ''if-continue2'')"
proof -
  let ?f = "\<lparr>name = ''f'', parent = Some 0, children = [(''f'', 2)], args = [],
                 continuation_f = None, entry_point = 2, current_mcfunction = 2,
                 was_ended = False\<rparr>"
  let ?m = "\<lparr>name = ''f'', parent = Some 1, description = [], tags = {},
                   commands = [], continuation = None\<rparr>"
  have a: "lookup fn_heap 1 = Some (Function ?f)"
    and b: "lookup fn_heap (current_mcfunction ?f) = Some (MCFunction ?m)"
    and c: "\<not> was_ended ?f"
    by (simp_all add: fn_heap_def lookup_def)
  from c_if_effect [OF a c b, of "Condition ''c'' []"] obtain if_fn h' where
    r: "c_if fn_heap 1 (Condition ''c'' []) = Inr (if_fn, h')" by blast
  from r c_if_result [OF a c b, of "Condition ''c'' []"]
  have "if_fn = 5 \<and> map_option obj_name (lookup h' 5) = Some ''if1''
         \<and> map_option obj_name (lookup h' 7) = Some ''if-continue2''"
    by (auto simp: fn_heap_def lookup_def str_nat_small digit_char_def)
  with r a b show ?thesis by (auto simp: fn_heap_def lookup_def)
qed

section \<open>Function: the calling convention (C8)\<close>

text \<open>
  C8. For a call \<open>c_call_function(function, arg, varargs)\<close> on a Function \<open>self\<close> that is
  not ended, where \<open>push\<close> is the stack-push routine: the call succeeds and appends to
  the current unit, in this order, the comment that announces the call, then for each
  vararg in call-site order the commands of one push, then the command that sets the
  argument register if a scalar argument is given, and last the call of the entry unit
  of \<open>function\<close>. The commands of one push of \<open>v\<close> are exactly what the call
  \<open>c_call_function(push, arg=v)\<close> appends.
\<close>

theorem c_call_function_order:
  assumes f: "lookup h self = Some (Function f)" and ne: "\<not> was_ended f"
    and m: "lookup h (current_mcfunction f) = Some (MCFunction m)"
    and g: "lookup h function = Some (Function g)"
    and p: "lookup h push = Some (Function p)"
  shows "c_call_function push h self function arg varargs
         = Inr (h[current_mcfunction f := MCFunction (m\<lparr>commands := commands m
                    @ Comment (call_comment arg varargs) [PathString function]
                      # concat (map (push_call push (entry_point p)) varargs)
                      @ set_arg arg @ [FunctionCall (entry_point g)]\<rparr>)])
       \<and> (\<forall>v. c_call_function push h self push (Some v) []
               = Inr (h[current_mcfunction f := MCFunction (m\<lparr>commands := commands m
                         @ push_call push (entry_point p) v\<rparr>)]))"
proof -
  let ?cur = "current_mcfunction f"
  let ?c = "Comment (call_comment arg varargs) [PathString function]"
  let ?ps = "concat (map (push_call push (entry_point p)) varargs)"
  let ?m1 = "m\<lparr>commands := commands m @ [?c]\<rparr>"
  let ?h1 = "h[?cur := MCFunction ?m1]"
  have s1: "comment h self (call_comment arg varargs) [PathString function] = Inr ?h1"
    unfolding comment_def by (rule add_command_appends [OF f ne m])
  note l1 = append_to_cursor [OF f m, where m' = "?m1"]
  let ?m2 = "m\<lparr>commands := commands m @ ?c # ?ps\<rparr>"
  let ?h2 = "h[?cur := MCFunction ?m2]"
  have s2: "push_varargs push ?h1 self varargs = Inr ?h2"
    using push_varargs_result [OF l1(1) ne l1(2) l1(3) [OF p], of varargs] by simp
  note l2 = append_to_cursor [OF f m, where m' = "?m2"]
  let ?m3 = "m\<lparr>commands := commands m @ ?c # ?ps @ set_arg arg\<rparr>"
  let ?h3 = "h[?cur := MCFunction ?m3]"
  have s3: "(case arg of None \<Rightarrow> Inr ?h2 | Some a \<Rightarrow> add_command ?h2 self [VarToVar a STD_ARG])
            = Inr ?h3"
    using add_command_appends [OF l2(1) ne l2(2)]
    by (cases arg) (simp_all add: set_arg_def)
  note l3 = append_to_cursor [OF f m, where m' = "?m3"]
  have s4: "add_command ?h3 self [FunctionCall (entry_point g)]
            = Inr (h[?cur := MCFunction (m\<lparr>commands := commands m @ ?c # ?ps @ set_arg arg
                                              @ [FunctionCall (entry_point g)]\<rparr>)])"
    using add_command_appends [OF l3(1) ne l3(2)] by simp
  have main: "c_call_function push h self function arg varargs
         = Inr (h[?cur := MCFunction (m\<lparr>commands := commands m @ ?c # ?ps @ set_arg arg
                                              @ [FunctionCall (entry_point g)]\<rparr>)])"
    by (simp add: c_call_function.simps [of push h self "function" arg varargs] s1 s2 s3
          l3(3) [OF g] s4)
  have one: "c_call_function push h self push (Some v) []
               = Inr (h[?cur := MCFunction (m\<lparr>commands := commands m
                         @ push_call push (entry_point p) v\<rparr>)])" for v
    using call_no_varargs [OF f ne m p, of push "Some v"]
    by (simp add: push_call_def set_arg_def)
  from main one show ?thesis by blast
qed

theorem c_call_function_order_witness:
  "lookup fn_heap 1 = Some (fn_heap ! 1) \<and> lookup fn_heap 2 = Some (fn_heap ! 2)
   \<and> lookup fn_heap 3 = Some (fn_heap ! 3)
   \<and> c_call_function 3 fn_heap 1 1 (Some (Expression True ''x''))
        [Expression True ''y'', Expression True ''z'']
      = Inr (fn_heap[2 := MCFunction \<lparr>name = ''f'', parent = Some 1, description = [],
               tags = {},
               commands =
                 [Comment ''calling function %s with STD_ARG with 2 varargs'' [PathString 1],
                  Comment ''calling function %s with STD_ARG'' [PathString 3],
                  VarToVar (Expression True ''y'') STD_ARG, FunctionCall 4,
                  Comment ''calling function %s with STD_ARG'' [PathString 3],
                  VarToVar (Expression True ''z'') STD_ARG, FunctionCall 4,
                  VarToVar (Expression True ''x'') STD_ARG, FunctionCall 2],
               continuation = None\<rparr>])"
proof -
  let ?f = "\<lparr>name = ''f'', parent = Some 0, children = [(''f'', 2)], args = [],
                 continuation_f = None, entry_point = 2, current_mcfunction = 2,
                 was_ended = False\<rparr>"
  let ?m = "\<lparr>name = ''f'', parent = Some 1, description = [], tags = {},
                   commands = [], continuation = None\<rparr>"
  let ?p = "\<lparr>name = ''push'', parent = Some 0, children = [(''push'', 4)], args = [],
                 continuation_f = None, entry_point = 4, current_mcfunction = 4,
                 was_ended = False\<rparr>"
  have a: "lookup fn_heap 1 = Some (Function ?f)"
    and b: "lookup fn_heap (current_mcfunction ?f) = Some (MCFunction ?m)"
    and c: "\<not> was_ended ?f"
    and p: "lookup fn_heap 3 = Some (Function ?p)"
    by (simp_all add: fn_heap_def lookup_def)
  have s: "str_nat (Suc (Suc 0)) = ''2''" by (simp add: str_nat_small digit_char_def)
  from c_call_function_order [OF a c b a p, of "Some (Expression True ''x'')"
      "[Expression True ''y'', Expression True ''z'']"] a b p s
  show ?thesis
    by (simp add: push_call_def set_arg_def call_comment_def fn_heap_def)
qed

section \<open>Template: memoisation (C3)\<close>



section \<open>Class: symbol lookup (C7)\<close>

text \<open>
  C7. For a Class \<open>self\<close> whose hierarchy has depth at most \<open>n + 1\<close>, and a call stack deep
  enough for it, \<open>get\<close> returns a result \<open>r\<close>: if \<open>s\<close> is a direct child, \<open>r\<close> is that child;
  otherwise either some declared parent is the first, in declaration order, whose own
  \<open>get\<close> succeeds, all parents before it fail with UnknownSymbol, and \<open>r\<close> is its result,
  or the \<open>get\<close> of every declared parent fails with UnknownSymbol and \<open>r\<close> is the failure
  UnknownSymbol. In particular, if the only declared parent is a Class that has \<open>s\<close> as a
  direct child and \<open>self\<close> has not, \<open>r\<close> is the parent's binding.
\<close>

theorem class_get_resolution:
  assumes "hierarchy (Suc n) h self" and "lookup h self = Some (Class c)"
  shows "\<forall>k\<ge>n. \<exists>r. get (Suc k) h self s = Some r
       \<and> (\<forall>x. map_of (children c) s = Some x \<longrightarrow> r = Inr x)
       \<and> (map_of (children c) s = None \<longrightarrow>
            (\<exists>i<length (inherits_from c).
                (\<forall>j<i. get k h (inherits_from c ! j) s = Some (Inl (UnknownSymbol s)))
                \<and> (\<exists>x. get k h (inherits_from c ! i) s = Some (Inr x) \<and> r = Inr x))
            \<or> ((\<forall>p\<in>set (inherits_from c). get k h p s = Some (Inl (UnknownSymbol s)))
                \<and> r = Inl (UnknownSymbol s)))
       \<and> (\<forall>b B x. map_of (children c) s = None \<longrightarrow> inherits_from c = [b]
             \<longrightarrow> lookup h b = Some (Class B) \<longrightarrow> map_of (children B) s = Some x
             \<longrightarrow> r = Inr x)"
proof (intro allI impI)
  fix k assume k: "n \<le> k"
  from assms have "\<forall>p\<in>set (inherits_from c). hierarchy n h p"
    by (simp add: list_all_iff)
  with k have ps: "\<forall>p\<in>set (inherits_from c). hierarchy k h p"
    by (blast intro: hierarchy_mono)
  then have all: "\<forall>p\<in>set (inherits_from c). \<exists>r. get k h p s = Some r \<and> hit_or_miss s r"
    by (blast dest: get_total)
  show "\<exists>r. get (Suc k) h self s = Some r
       \<and> (\<forall>x. map_of (children c) s = Some x \<longrightarrow> r = Inr x)
       \<and> (map_of (children c) s = None \<longrightarrow>
            (\<exists>i<length (inherits_from c).
                (\<forall>j<i. get k h (inherits_from c ! j) s = Some (Inl (UnknownSymbol s)))
                \<and> (\<exists>x. get k h (inherits_from c ! i) s = Some (Inr x) \<and> r = Inr x))
            \<or> ((\<forall>p\<in>set (inherits_from c). get k h p s = Some (Inl (UnknownSymbol s)))
                \<and> r = Inl (UnknownSymbol s)))
       \<and> (\<forall>b B x. map_of (children c) s = None \<longrightarrow> inherits_from c = [b]
             \<longrightarrow> lookup h b = Some (Class B) \<longrightarrow> map_of (children B) s = Some x
             \<longrightarrow> r = Inr x)"
  proof (cases "map_of (children c) s")
    case (Some x)
    with assms(2) show ?thesis by (simp add: namespace_get_def)
  next
    case None
    with assms(2) have g: "get (Suc k) h self s
        = get_inherited k h (inherits_from c) s (UnknownSymbol s)"
      by (simp add: namespace_get_def)
    have single: "get_inherited k h (inherits_from c) s (UnknownSymbol s) = Some (Inr x)"
      if "inherits_from c = [b]" "lookup h b = Some (Class B)" "map_of (children B) s = Some x"
      for b B x
    proof -
      from ps that(1) have "hierarchy k h b" by simp
      then obtain k' where "k = Suc k'" by (cases k) auto
      with that show ?thesis by (simp add: namespace_get_def)
    qed
    let ?gi = "get_inherited k h (inherits_from c) s (UnknownSymbol s)"
    from get_inherited_first [OF all, of "UnknownSymbol s"]
    obtain r where r: "?gi = Some r"
      and first: "(\<exists>i<length (inherits_from c).
                (\<forall>j<i. get k h (inherits_from c ! j) s = Some (Inl (UnknownSymbol s)))
                \<and> (\<exists>x. get k h (inherits_from c ! i) s = Some (Inr x) \<and> r = Inr x))
            \<or> ((\<forall>p\<in>set (inherits_from c). get k h p s = Some (Inl (UnknownSymbol s)))
                \<and> r = Inl (UnknownSymbol s))"
      by (auto simp del: get.simps)
    show ?thesis
    proof (intro exI [of _ r] conjI allI impI)
      show "get (Suc k) h self s = Some r" using g r by simp
    next
      fix x assume "map_of (children c) s = Some x"
      with None show "r = Inr x" by simp
    next
      show "(\<exists>i<length (inherits_from c).
                (\<forall>j<i. get k h (inherits_from c ! j) s = Some (Inl (UnknownSymbol s)))
                \<and> (\<exists>x. get k h (inherits_from c ! i) s = Some (Inr x) \<and> r = Inr x))
            \<or> ((\<forall>p\<in>set (inherits_from c). get k h p s = Some (Inl (UnknownSymbol s)))
                \<and> r = Inl (UnknownSymbol s))"
        by (rule first)
    next
      fix b B x
      assume "inherits_from c = [b]" "lookup h b = Some (Class B)" "map_of (children B) s = Some x"
      from single [OF this] r show "r = Inr x" by simp
    qed
  qed
qed

theorem class_get_resolution_witness:
  "hierarchy 2 class_heap 1 \<and> lookup class_heap 1 = Some (class_heap ! 1)
   \<and> get 2 class_heap 1 ''s'' = Some (Inr 2)
   \<and> get 2 class_heap 1 ''t'' = Some (Inl (UnknownSymbol ''t''))"
proof -
  let ?A = "\<lparr>name = ''A'', parent = None, children = [], inherits_from = [0]\<rparr>"
  have a: "hierarchy (Suc 1) class_heap 1" "lookup class_heap 1 = Some (Class ?A)"
    by (simp_all add: class_heap_def lookup_def)
  have b: "lookup class_heap 0 = Some (class_heap ! 0)"
    by (simp add: class_heap_def lookup_def)
  from class_get_resolution [OF a, of "''s''"] b
  have 1: "get 2 class_heap 1 ''s'' = Some (Inr 2)"
    by (auto simp: class_heap_def numeral_2_eq_2 simp del: get.simps)
  have g0: "get 1 class_heap 0 ''t'' = Some (Inl (UnknownSymbol ''t''))"
    by (simp add: class_heap_def lookup_def namespace_get_def)
  from class_get_resolution [OF a, of "''t''"] g0
  have 2: "get 2 class_heap 1 ''t'' = Some (Inl (UnknownSymbol ''t''))"
    by (auto simp: numeral_2_eq_2 simp del: get.simps)
  from a 1 2 show ?thesis by (simp add: class_heap_def numeral_2_eq_2 del: get.simps hierarchy.simps)
qed

section \<open>Export: unfinished scopes (C4)\<close>

text \<open>
  C4. Let \<open>r\<close> be a Namespace that is the root of a namespace tree of height at most \<open>n\<close>
  and whose own path is defined. If some object below \<open>r\<close> is a Function that is not
  ended, then for every sufficiently deep call stack \<open>get_all_mcfunctions\<close> fails with
  the error UnfinishedScope that names the path of a Function below \<open>r\<close> that is not
  ended. If every Function below \<open>r\<close> is ended, then for every sufficiently deep call
  stack it returns a dictionary \<open>m\<close> such that \<open>m\<close> maps \<open>p\<close> to \<open>u\<close> exactly if \<open>u\<close> is a unit
  below \<open>r\<close> and \<open>p\<close> is its path; every unit below \<open>r\<close> is in \<open>m\<close>.
\<close>

theorem export_checks_ended:
  assumes "wf_tree n h r" and "lookup h r = Some ob" and "obj_children ob = Some chs"
    and "path k h r = Some (Inr pr)"
  shows "((\<exists>c\<in>set (descendants n h r). unended h c) \<longrightarrow>
            (\<exists>c p d. c \<in> set (descendants n h r) \<and> unended h c
               \<and> (\<forall>d'\<ge>d. path d' h c = Some (Inr p)
                          \<and> get_all_mcfunctions d' h r = Some (Inl (UnfinishedScope p)))))
       \<and> ((\<forall>c\<in>set (descendants n h r). \<not> unended h c) \<longrightarrow>
            (\<exists>m d. (\<forall>d'\<ge>d. get_all_mcfunctions d' h r = Some (Inr m))
               \<and> (\<forall>p u. (map_of m p = Some u)
                     = (u \<in> set (descendants n h r) \<and> is_unit h u
                        \<and> (\<exists>d. path d h u = Some (Inr p))))
               \<and> (\<forall>u\<in>set (descendants n h r). is_unit h u \<longrightarrow> (\<exists>p. map_of m p = Some u))))"
proof (intro conjI impI)
  note out = get_all_mcfunctions_outcome [OF assms]
  {
    assume "\<exists>c\<in>set (descendants n h r). unended h c"
    with out obtain c p d where c: "c \<in> set (descendants n h r)" "unended h c"
      "path d h c = Some (Inr p)" "get_all_mcfunctions d h r = Some (Inl (UnfinishedScope p))"
      unfolding export_outcome_def by auto
    have "\<forall>d'\<ge>d. path d' h c = Some (Inr p)
                  \<and> get_all_mcfunctions d' h r = Some (Inl (UnfinishedScope p))"
      using path_mono [OF c(3)] get_all_mcfunctions_mono [OF c(4)] by blast
    with c(1,2) show "\<exists>c p d. c \<in> set (descendants n h r) \<and> unended h c
               \<and> (\<forall>d'\<ge>d. path d' h c = Some (Inr p)
                          \<and> get_all_mcfunctions d' h r = Some (Inl (UnfinishedScope p)))"
      by blast
  }
  {
    assume "\<forall>c\<in>set (descendants n h r). \<not> unended h c"
    with out obtain m d where m: "get_all_mcfunctions d h r = Some (Inr m)"
      and mc: "\<forall>p u. (map_of m p = Some u) = ((p, u) \<in> units_in h (descendants n h r))"
      unfolding export_outcome_def by auto
    have 1: "\<forall>d'\<ge>d. get_all_mcfunctions d' h r = Some (Inr m)"
      using get_all_mcfunctions_mono [OF m] by blast
    have 2: "\<forall>p u. (map_of m p = Some u)
                     = (u \<in> set (descendants n h r) \<and> is_unit h u
                        \<and> (\<exists>d. path d h u = Some (Inr p)))"
      using mc by (simp add: units_in_def)
    have 3: "\<forall>u\<in>set (descendants n h r). is_unit h u \<longrightarrow> (\<exists>p. map_of m p = Some u)"
    proof (intro ballI impI)
      fix u assume u: "u \<in> set (descendants n h r)" "is_unit h u"
      then have "u \<in> set (r # descendants n h r)" by simp
      from subtree_path [OF assms(1,4) this] obtain q d where
        "path d h u = Some (Inr (pr @ q))" by blast
      with u 2 show "\<exists>p. map_of m p = Some u" by blast
    qed
    from 1 2 3 show "\<exists>m d. (\<forall>d'\<ge>d. get_all_mcfunctions d' h r = Some (Inr m))
               \<and> (\<forall>p u. (map_of m p = Some u)
                     = (u \<in> set (descendants n h r) \<and> is_unit h u
                        \<and> (\<exists>d. path d h u = Some (Inr p))))
               \<and> (\<forall>u\<in>set (descendants n h r). is_unit h u \<longrightarrow> (\<exists>p. map_of m p = Some u))"
      by blast
  }
qed

theorem export_checks_ended_witness:
  "wf_tree 3 fn_heap 0 \<and> lookup fn_heap 0 = Some (fn_heap ! 0)
   \<and> obj_children (fn_heap ! 0) = Some [(''f'', 1), (''push'', 3)]
   \<and> path 1 fn_heap 0 = Some (Inr [''ns''])
   \<and> (\<exists>c\<in>set (descendants 3 fn_heap 0). unended fn_heap c)
   \<and> (\<exists>c p d. c \<in> set (descendants 3 fn_heap 0) \<and> unended fn_heap c
          \<and> (\<forall>d'\<ge>d. path d' fn_heap c = Some (Inr p)
                \<and> get_all_mcfunctions d' fn_heap 0 = Some (Inl (UnfinishedScope p))))
   \<and> get_all_mcfunctions 3 fn_heap 0 = Some (Inl (UnfinishedScope [''ns'', ''f'']))
   \<and> wf_tree 4 scenario_heap 0 \<and> lookup scenario_heap 0 = Some (scenario_heap ! 0)
   \<and> obj_children (scenario_heap ! 0) = Some [(''f'', 1)]
   \<and> path 1 scenario_heap 0 = Some (Inr [''ns''])
   \<and> list_all (\<lambda>c. \<not> unended scenario_heap c) (descendants 4 scenario_heap 0)
   \<and> (\<exists>m d. (\<forall>d'\<ge>d. get_all_mcfunctions d' scenario_heap 0 = Some (Inr m))
          \<and> (\<forall>u\<in>set (descendants 4 scenario_heap 0). is_unit scenario_heap u
                \<longrightarrow> (\<exists>p. map_of m p = Some u)))
   \<and> get_all_mcfunctions 7 scenario_heap 0
       = Some (Inr [([''ns'', ''f'', ''f''], 2), ([''ns'', ''f'', ''if1'', ''if1''], 4),
                    ([''ns'', ''f'', ''if-continue2''], 5)])"
proof -
  have a: "wf_tree 3 fn_heap 0" "lookup fn_heap 0 = Some (fn_heap ! 0)"
    "obj_children (fn_heap ! 0) = Some [(''f'', 1), (''push'', 3)]"
    "path 1 fn_heap 0 = Some (Inr [''ns''])"
    by code_simp+
  have a': "\<exists>c\<in>set (descendants 3 fn_heap 0). unended fn_heap c"
    using fn_heap_tree(3,4) by simp
  have b: "wf_tree 4 scenario_heap 0" "lookup scenario_heap 0 = Some (scenario_heap ! 0)"
    "obj_children (scenario_heap ! 0) = Some [(''f'', 1)]"
    "path 1 scenario_heap 0 = Some (Inr [''ns''])"
    by code_simp+
  have b': "\<forall>c\<in>set (descendants 4 scenario_heap 0). \<not> unended scenario_heap c"
    using scenario_heap_tree(4) by (simp add: list_all_iff)
  from export_checks_ended [OF a] a'
  have 1: "\<exists>c p d. c \<in> set (descendants 3 fn_heap 0) \<and> unended fn_heap c
          \<and> (\<forall>d'\<ge>d. path d' fn_heap c = Some (Inr p)
                \<and> get_all_mcfunctions d' fn_heap 0 = Some (Inl (UnfinishedScope p)))"
    by blast
  from export_checks_ended [OF b] b'
  have 2: "\<exists>m d. (\<forall>d'\<ge>d. get_all_mcfunctions d' scenario_heap 0 = Some (Inr m))
          \<and> (\<forall>u\<in>set (descendants 4 scenario_heap 0). is_unit scenario_heap u
                \<longrightarrow> (\<exists>p. map_of m p = Some u))"
    by blast
  from a a' b scenario_heap_tree(4) 1 2 fn_heap_tree(5) scenario_heap_tree(5) show ?thesis
    by blast
qed

section \<open>The end-to-end scenario and the names of c_if (C1)\<close>

text \<open>
  C1, as stated, fails: in the scenario the then-branch is named \<open>if1\<close> and the
  continuation unit \<open>if-continue2\<close>; the exported paths are \<open>ns/f/f\<close>, \<open>ns/f/if1/if1\<close> and
  \<open>ns/f/if-continue2\<close>, and no reading of \<open>f\<close>, \<open>f/if0\<close>, \<open>f/if-continue0\<close> gives them.
\<close>

theorem scenario_names_counterexample:
  "scenario = Inr scenario_heap
   \<and> map_option obj_name (lookup scenario_heap 3) = Some ''if1''
   \<and> map_option obj_name (lookup scenario_heap 5) = Some ''if-continue2''
   \<and> scenario_export
       = Some (Inr [([''ns'', ''f'', ''f''], 2), ([''ns'', ''f'', ''if1'', ''if1''], 4),
                    ([''ns'', ''f'', ''if-continue2''], 5)])
   \<and> map_option (map_sum id (map fst)) scenario_export
       \<noteq> Some (Inr [[''f''], [''f'', ''if0''], [''f'', ''if-continue0'']])
   \<and> map_option (map_sum id (map fst)) scenario_export
       \<noteq> Some (Inr [[''ns'', ''f'', ''f''], [''ns'', ''f'', ''if0'', ''if0''],
                     [''ns'', ''f'', ''if-continue0'']])"
  unfolding scenario_export_eq scenario_eq by code_simp

text \<open>
  C1, amended. In the scenario the export returns exactly three units, under the paths
  \<open>ns/f/f\<close> (the entry unit of \<open>f\<close>), \<open>ns/f/if1/if1\<close> (the entry unit of the then-branch) and
  \<open>ns/f/if-continue2\<close> (the continuation unit), and the entry unit of \<open>f\<close> has 3 commands.
  In general, on a Function that is not ended, \<open>c_if\<close> names the then-branch \<open>if<N>\<close>,
  where \<open>N\<close> is the number of children of the Function before the call, and the
  continuation unit \<open>if-continue<M>\<close>, where \<open>M\<close> is the number of children once the
  then-branch is bound: \<open>M = N + 1\<close> if the name \<open>if<N>\<close> was not bound before.
\<close>

theorem scenario_export_units:
  "scenario = Inr scenario_heap
   \<and> scenario_export
       = Some (Inr [([''ns'', ''f'', ''f''], 2), ([''ns'', ''f'', ''if1'', ''if1''], 4),
                    ([''ns'', ''f'', ''if-continue2''], 5)])
   \<and> namespace_get scenario_heap 0 ''f'' = Inr 1
   \<and> entry_point_of scenario_heap 1 = Some 2
   \<and> map_option length (commands_of scenario_heap 2) = Some 3
   \<and> (\<forall>h self f m cond.
          lookup h self = Some (Function f) \<longrightarrow> \<not> was_ended f \<longrightarrow>
          lookup h (current_mcfunction f) = Some (MCFunction m) \<longrightarrow>
          (\<exists>if_fn h' i f' u.
             c_if h self cond = Inr (if_fn, h')
             \<and> lookup h' if_fn = Some (Function i)
             \<and> name i = ''if'' @ str_nat (length (children f))
             \<and> lookup h' self = Some (Function f')
             \<and> lookup h' (current_mcfunction f') = Some (MCFunction u)
             \<and> name u = ''if-continue''
                   @ str_nat (length (AList.update (name i) if_fn (children f)))
             \<and> (map_of (children f) (name i) = None \<longrightarrow>
                  length (AList.update (name i) if_fn (children f))
                  = Suc (length (children f)))))"
proof -
  have gen: "\<exists>if_fn h' i f' u.
             c_if h self cond = Inr (if_fn, h')
             \<and> lookup h' if_fn = Some (Function i)
             \<and> name i = ''if'' @ str_nat (length (children f))
             \<and> lookup h' self = Some (Function f')
             \<and> lookup h' (current_mcfunction f') = Some (MCFunction u)
             \<and> name u = ''if-continue''
                   @ str_nat (length (AList.update (name i) if_fn (children f)))
             \<and> (map_of (children f) (name i) = None \<longrightarrow>
                  length (AList.update (name i) if_fn (children f))
                  = Suc (length (children f)))"
    if f: "lookup h self = Some (Function f)" and ne: "\<not> was_ended f"
      and m: "lookup h (current_mcfunction f) = Some (MCFunction m)"
    for h self f m cond
  proof -
    let ?L = "length h"
    let ?name1 = "''if'' @ str_nat (length (children f))"
    let ?children1 = "AList.update ?name1 ?L (children f)"
    let ?name2 = "''if-continue'' @ str_nat (length ?children1)"
    let ?I = "\<lparr>name = ?name1, parent = Some self, children = [(?name1, Suc ?L)], args = [],
                    continuation_f = Some (Suc (Suc ?L)), entry_point = Suc ?L,
                    current_mcfunction = Suc ?L, was_ended = False\<rparr>"
    let ?C = "\<lparr>name = ?name2, parent = Some self, description = [], tags = {},
                      commands = [], continuation = None\<rparr>"
    let ?F = "f\<lparr>children := AList.update ?name2 (Suc (Suc ?L)) ?children1,
                  current_mcfunction := Suc (Suc ?L)\<rparr>"
    from f m have lt: "self < ?L" "current_mcfunction f < ?L"
      and neq: "self \<noteq> current_mcfunction f"
      by (auto dest: lookup_SomeD)
    note r = c_if_result [OF f ne m, of cond]
    obtain h' where h': "c_if h self cond = Inr (?L, h')" using r by simp
    note eq = r [unfolded h', simplified]
    have 1: "lookup h' ?L = Some (Function ?I)"
      unfolding eq by (simp add: lookup_def nth_append)
    have 2: "lookup h' self = Some (Function ?F)"
      using lt neq unfolding eq by (simp add: lookup_def nth_append)
    have 3: "lookup h' (current_mcfunction ?F) = Some (MCFunction ?C)"
      unfolding eq by (simp add: lookup_def nth_append)
    have 4: "map_of (children f) ?name1 = None \<longrightarrow>
                  length ?children1 = Suc (length (children f))"
      by (simp add: length_update_new)
    show ?thesis
      apply (rule exI [of _ ?L], rule exI [of _ h'], rule exI [of _ ?I])
      apply (rule exI [of _ ?F], rule exI [of _ ?C])
      using h' 1 2 3 4 apply simp
      done
  qed
  have names: "namespace_get scenario_heap 0 ''f'' = Inr 1"
    "entry_point_of scenario_heap 1 = Some 2"
    "map_option length (commands_of scenario_heap 2) = Some 3"
    by code_simp+
  from scenario_eq scenario_export_eq names gen show ?thesis by blast
qed

theorem scenario_export_units_witness:
  "lookup fn_heap 1 = Some (fn_heap ! 1) \<and> lookup fn_heap 2 = Some (fn_heap ! 2)
   \<and> (\<exists>h'. c_if fn_heap 1 (Condition ''c'' []) = Inr (5, h')
          \<and> map_option obj_name (lookup h' 5) = Some ''if1''
          \<and> map_option obj_name (lookup h' 7) = Some ''if-continue2'')"
proof -
  let ?f = "\<lparr>name = ''f'', parent = Some 0, children = [(''f'', 2)], args = [],
                 continuation_f = None, entry_point = 2, current_mcfunction = 2,
                 was_ended = False\<rparr>"
  let ?m = "\<lparr>name = ''f'', parent = Some 1, description = [], tags = {},
                   commands = [], continuation = None\<rparr>"
  have a: "lookup fn_heap 1 = Some (Function ?f)"
    and b: "lookup fn_heap (current_mcfunction ?f) = Some (MCFunction ?m)"
    and c: "\<not> was_ended ?f"
    by (simp_all add: fn_heap_def lookup_def)
  from scenario_export_units a b c obtain if_fn h' i f' u where
    r: "c_if fn_heap 1 (Condition ''c'' []) = Inr (if_fn, h')"
       "lookup h' if_fn = Some (Function i)"
       "name i = ''if'' @ str_nat (length (children ?f))"
       "lookup h' 1 = Some (Function f')"
       "lookup h' (current_mcfunction f') = Some (MCFunction u)"
       "name u = ''if-continue'' @ str_nat (length (AList.update (name i) if_fn (children ?f)))"
    by blast
  from r(1) c_if_result [OF a c b, of "Condition ''c'' []"]
  have "if_fn = 5" and h'eq: "lookup h' 1 = Some (Function (?f\<lparr>children :=
      AList.update (''if-continue'' @ str_nat (length (AList.update (''if'' @ str_nat (length (children ?f))) 5 (children ?f)))) 7
        (AList.update (''if'' @ str_nat (length (children ?f))) 5 (children ?f)),
      current_mcfunction := 7\<rparr>))"
    by (auto simp: fn_heap_def lookup_def nth_append)
  with r have "current_mcfunction f' = 7" by simp
  with r \<open>if_fn = 5\<close> a b show ?thesis
    by (auto simp: str_nat_small digit_char_def fn_heap_def)
qed

end
